theory Spec2Isabelle
  imports Main
begin

section \<open>Errors\<close>

text \<open>
  Go's \<open>error\<close> values, as far as \<open>listener.go\<close> and its tests touch them:
  \<open>net.ErrClosed\<close>, the values of \<open>errors.New\<close>, the \<open>*net.OpError\<close> the TCP
  listener wraps its failures in (operation name and wrapped error), an error number of
  the platform, and the \<open>*joinError\<close> of \<open>errors.Join\<close>. A nil error is \<open>None\<close> of
  \<open>error option\<close>.
\<close>

datatype error =
    ErrClosed
  | ErrorString string
  | OpError string error
  | Errno nat
  | JoinError "error list"

definition errors_New :: "string \<Rightarrow> error" where
  "errors_New text = ErrorString text"

text \<open>\<open>errors.Join\<close>: nil arguments are discarded; nil when nothing is left.\<close>

primrec non_nil :: "error option list \<Rightarrow> error list" where
  "non_nil [] = []"
| "non_nil (e # es) = (case e of None \<Rightarrow> non_nil es | Some x \<Rightarrow> x # non_nil es)"

definition errors_Join :: "error option list \<Rightarrow> error option" where
  "errors_Join errs = (if non_nil errs = [] then None else Some (JoinError (non_nil errs)))"

text \<open>
  \<open>errors.Is\<close> on non-nil arguments: the error itself, or what it unwraps to
  (\<open>OpError.Unwrap\<close> gives the wrapped error, \<open>joinError.Unwrap\<close> the joined ones).
\<close>

fun errors_Is :: "error \<Rightarrow> error \<Rightarrow> bool" where
  "errors_Is (OpError opn e) target = (OpError opn e = target \<or> errors_Is e target)"
| "errors_Is (JoinError es) target = (JoinError es = target \<or> (\<exists>e \<in> set es. errors_Is e target))"
| "errors_Is e target = (e = target)"

section \<open>The platform: listening sockets\<close>

text \<open>
  A \<open>net.Listener\<close> is a reference to a socket object; sockets live in a store and a
  listener is an index into it. A socket keeps its bound address, whether it is still
  open, and the failure (if any) the platform reports when it is closed. The trace
  records, in order, the calls that leave the package: binds, closes of sockets, the
  close of the shutdown channel and the goroutines started.
\<close>

record socket =
  sock_addr :: string
  sock_open :: bool
  sock_fault :: "error option"

datatype event =
    EvBind string nat
  | EvBindFailed string
  | EvLnClose nat
  | EvSignal
  | EvGo nat

record world =
  socks :: "socket list"
  trace :: "event list"

text \<open>
  What binding an address does is the platform's choice: given the world and the address
  asked for, either a bind error, or the address bound together with the failure a later
  close of that socket will report.
\<close>

type_synonym platform = "world \<Rightarrow> string \<Rightarrow> error + string \<times> error option"

definition lc_Listen :: "platform \<Rightarrow> world \<Rightarrow> string \<Rightarrow> world \<times> (error + nat)" where
  "lc_Listen net w addr =
     (case net w addr of
        Inl lerr \<Rightarrow> (w\<lparr>trace := trace w @ [EvBindFailed addr]\<rparr>, Inl lerr)
      | Inr (bound, fault) \<Rightarrow>
          (w\<lparr>socks := socks w @ [\<lparr>sock_addr = bound, sock_open = True, sock_fault = fault\<rparr>],
              trace := trace w @ [EvBind addr (length (socks w))]\<rparr>,
           Inr (length (socks w))))"

text \<open>
  \<open>ln.Close()\<close>: an open socket is closed and reports its fault; a socket already closed
  reports \<open>net.ErrClosed\<close> wrapped in an \<open>OpError\<close>. \<open>None\<close> is the panic of a call on a
  listener that does not exist.
\<close>

definition ln_Close :: "world \<Rightarrow> nat \<Rightarrow> (error option \<times> world) option" where
  "ln_Close w ln =
     (if ln < length (socks w) then
        (if sock_open (socks w ! ln) then
           Some (sock_fault (socks w ! ln),
                 w\<lparr>socks := (socks w)[ln := (socks w ! ln)\<lparr>sock_open := False\<rparr>],
                   trace := trace w @ [EvLnClose ln]\<rparr>)
         else Some (Some (OpError ''close'' ErrClosed), w\<lparr>trace := trace w @ [EvLnClose ln]\<rparr>))
      else None)"

definition ln_Addr :: "world \<Rightarrow> nat \<Rightarrow> string option" where
  "ln_Addr w ln = (if ln < length (socks w) then Some (sock_addr (socks w ! ln)) else None)"

section \<open>The listener\<close>

text \<open>
  The struct \<open>Listener\<close>. \<open>closeCh\<close> is true once the channel is closed. The unbuffered
  channel \<open>conns\<close> holds no data of its own: its state is which goroutines are parked on
  it, and lives in the goroutines' states below.
\<close>

record Listener =
  listeners :: "nat list"
  closeCh :: bool
  closed :: bool

text \<open>The loop of \<open>Close\<close> over the sub-listeners: the first error is kept.\<close>

fun close_loop :: "nat list \<Rightarrow> error option \<Rightarrow> world \<Rightarrow> (error option \<times> world) option" where
  "close_loop [] err w = Some (err, w)"
| "close_loop (ln # lns) err w =
     (case ln_Close w ln of
        None \<Rightarrow> None
      | Some (cerr, w') \<Rightarrow> close_loop lns (if cerr \<noteq> None \<and> err = None then cerr else err) w')"

text \<open>
  \<open>Close\<close>. The compare-and-swap on \<open>closed\<close> lets one caller through; closing a channel
  that is already closed panics (\<open>None\<close>).
\<close>

definition Close :: "Listener \<Rightarrow> world \<Rightarrow> (error option \<times> Listener \<times> world) option" where
  "Close l w =
     (if closed l then Some (Some ErrClosed, l, w)
      else if closeCh l then None
      else
        (case close_loop (listeners l) None (w\<lparr>trace := trace w @ [EvSignal]\<rparr>) of
           None \<Rightarrow> None
         | Some (err, w') \<Rightarrow> Some (err, l\<lparr>closeCh := True, closed := True\<rparr>, w')))"

text \<open>\<open>acceptLoop\<close> starts one goroutine per sub-listener.\<close>

definition acceptLoop :: "Listener \<Rightarrow> world \<Rightarrow> world" where
  "acceptLoop l w = w\<lparr>trace := trace w @ map EvGo (listeners l)\<rparr>"

text \<open>
  The loop of \<open>Listen\<close> over the addresses. \<open>Inl\<close> is the early return with its error
  value, \<open>Inr\<close> the listener when every address is bound.
\<close>

fun bind_loop ::
  "platform \<Rightarrow> string list \<Rightarrow> Listener \<Rightarrow> world \<Rightarrow> (world \<times> (error option + Listener)) option"
where
  "bind_loop net [] mln w = Some (w, Inr mln)"
| "bind_loop net (addr # addrs) mln w =
     (case lc_Listen net w addr of
        (w1, Inl lerr) \<Rightarrow>
          (case Close mln w1 of
             None \<Rightarrow> None
           | Some (cerr, mln', w2) \<Rightarrow> Some (w2, Inl (errors_Join [Some lerr, cerr])))
      | (w1, Inr ln) \<Rightarrow> bind_loop net addrs (mln\<lparr>listeners := listeners mln @ [ln]\<rparr>) w1)"

text \<open>\<open>Listen\<close> returns the world, the listener (or nil) and the error (or nil).\<close>

definition Listen ::
  "platform \<Rightarrow> world \<Rightarrow> string list \<Rightarrow> (world \<times> Listener option \<times> error option) option"
where
  "Listen net w addrs =
     (if length addrs = 0 then Some (w, None, Some (errors_New ''no addresses to listen on''))
      else
        (case bind_loop net addrs \<lparr>listeners = [], closeCh = False, closed = False\<rparr> w of
           None \<Rightarrow> None
         | Some (w1, Inl err) \<Rightarrow> Some (w1, None, err)
         | Some (w1, Inr mln) \<Rightarrow> Some (acceptLoop mln w1, Some mln, None)))"

text \<open>\<open>Addr\<close> indexes the first sub-listener; on an empty slice that panics (\<open>None\<close>).\<close>

definition Addr :: "Listener \<Rightarrow> world \<Rightarrow> string option" where
  "Addr l w = (case listeners l of [] \<Rightarrow> None | ln # _ \<Rightarrow> ln_Addr w ln)"

fun addrs_loop :: "nat list \<Rightarrow> world \<Rightarrow> string list option" where
  "addrs_loop [] w = Some []"
| "addrs_loop (ln # lns) w =
     (case ln_Addr w ln of
        None \<Rightarrow> None
      | Some a \<Rightarrow> (case addrs_loop lns w of None \<Rightarrow> None | Some as \<Rightarrow> Some (a # as)))"

definition Addrs :: "Listener \<Rightarrow> world \<Rightarrow> string list option" where
  "Addrs l w = addrs_loop (listeners l) w"

section \<open>The goroutines\<close>

text \<open>
  After a successful \<open>Listen\<close> the program is a set of goroutines: one task per
  sub-listener running the loop of \<open>acceptLoop\<close>, goroutines that call \<open>Accept\<close>, and
  goroutines that call \<open>Close\<close>. Each is at a point of its code; a step moves one of
  them from one point to the next.

  Channels follow Go's rules. A \<open>select\<close> is evaluated atomically: a case is ready when
  its channel is closed (a receive) or when a peer is parked on the other end of the
  unbuffered channel; if a case is ready one ready case is taken (which one is not
  determined, so the step takes the choice as an argument), and the goroutine parks on
  all its cases only when none is ready. Closing a channel wakes every goroutine parked
  on a receive from it, and closing a closed channel panics.
\<close>

type_synonym conn = nat

text \<open>The struct \<open>connErrPair\<close>: a connection or nil, an error or nil.\<close>

type_synonym connErrPair = "conn option \<times> error option"

text \<open>
  The points of the task of \<open>acceptLoop\<close>: inside \<open>ln.Accept()\<close>; about to run the
  \<open>select\<close> with the pair obtained; parked in the \<open>select\<close>; after the send, before the
  test of \<open>err\<close>; in the branch of \<open>closeCh\<close>, before the connection is closed; returned.
\<close>

datatype task =
    TAccept
  | TSelect connErrPair
  | TParked connErrPair
  | TSent "error option"
  | TClosing "conn option"
  | TDone

text \<open>A caller of \<open>Accept\<close>: not in a call, parked in the \<open>select\<close>, or returned.\<close>

datatype caller = CIdle | CParked | CRet connErrPair

text \<open>
  A caller of \<open>Close\<close>: not in a call; past the compare-and-swap, about to close
  \<open>closeCh\<close>; in the loop, at an index with the error kept so far; returned.
\<close>

datatype closer = KIdle | KSignal | KLoop nat "error option" | KRet "error option"

text \<open>
  The state of the program. \<open>delivered\<close> lists the pairs received from \<open>conns\<close> by
  callers of \<open>Accept\<close>, each with the index of the task that sent it; \<open>conn_closed\<close> the
  connections closed by tasks.
\<close>

record sys =
  lst :: Listener
  wld :: world
  tasks :: "task list"
  callers :: "caller list"
  closers :: "closer list"
  next_conn :: nat
  delivered :: "(nat \<times> connErrPair) list"
  conn_closed :: "conn list"
  panicked :: bool

text \<open>
  The outcome of a \<open>select\<close>: the case on \<open>conns\<close>, with the parked peer it meets; the
  case on \<open>closeCh\<close>; or parking.
\<close>

datatype choice = OnConns nat | OnCloseCh | Park

fun parked_task :: "task \<Rightarrow> bool" where
  "parked_task (TParked p) = True"
| "parked_task t = False"

fun wake_task :: "task \<Rightarrow> task" where
  "wake_task (TParked p) = TClosing (fst p)"
| "wake_task t = t"

fun wake_caller :: "caller \<Rightarrow> caller" where
  "wake_caller CParked = CRet (None, Some ErrClosed)"
| "wake_caller c = c"

text \<open>
  \<open>ln.Accept()\<close> of task \<open>i\<close> returns: with a new connection or without, with an error
  or without, as the sub-listener decides.
\<close>

definition ln_Accept :: "nat \<Rightarrow> bool \<Rightarrow> error option \<Rightarrow> sys \<Rightarrow> sys option" where
  "ln_Accept i has_conn err s =
     (if i < length (tasks s) \<and> tasks s ! i = TAccept then
        Some (s\<lparr>tasks := (tasks s)[i := TSelect (if has_conn then Some (next_conn s) else None, err)],
                next_conn := (if has_conn then Suc (next_conn s) else next_conn s)\<rparr>)
      else None)"

text \<open>The \<open>select\<close> of task \<open>i\<close>: send the pair on \<open>conns\<close>, or receive from \<open>closeCh\<close>.\<close>

definition task_select :: "nat \<Rightarrow> choice \<Rightarrow> sys \<Rightarrow> sys option" where
  "task_select i ch s =
     (if i < length (tasks s) then
        (case tasks s ! i of
           TSelect p \<Rightarrow>
             (case ch of
                OnConns k \<Rightarrow>
                  if k < length (callers s) \<and> callers s ! k = CParked then
                    Some (s\<lparr>tasks := (tasks s)[i := TSent (snd p)],
                            callers := (callers s)[k := CRet p],
                            delivered := delivered s @ [(i, p)]\<rparr>)
                  else None
              | OnCloseCh \<Rightarrow>
                  if closeCh (lst s) then Some (s\<lparr>tasks := (tasks s)[i := TClosing (fst p)]\<rparr>)
                  else None
              | Park \<Rightarrow>
                  if \<not> closeCh (lst s) \<and> \<not> list_ex (\<lambda>c. c = CParked) (callers s) then
                    Some (s\<lparr>tasks := (tasks s)[i := TParked p]\<rparr>)
                  else None)
         | _ \<Rightarrow> None)
      else None)"

text \<open>After the send: return when \<open>err\<close> is not nil, else go round the loop.\<close>

definition task_loop :: "nat \<Rightarrow> sys \<Rightarrow> sys option" where
  "task_loop i s =
     (if i < length (tasks s) then
        (case tasks s ! i of
           TSent err \<Rightarrow> Some (s\<lparr>tasks := (tasks s)[i := (if err \<noteq> None then TDone else TAccept)]\<rparr>)
         | _ \<Rightarrow> None)
      else None)"

text \<open>The branch of \<open>closeCh\<close>: close the connection when there is one, and return.\<close>

definition task_quit :: "nat \<Rightarrow> sys \<Rightarrow> sys option" where
  "task_quit i s =
     (if i < length (tasks s) then
        (case tasks s ! i of
           TClosing c \<Rightarrow>
             Some (s\<lparr>tasks := (tasks s)[i := TDone],
                     conn_closed := (case c of None \<Rightarrow> conn_closed s | Some x \<Rightarrow> conn_closed s @ [x])\<rparr>)
         | _ \<Rightarrow> None)
      else None)"

text \<open>
  \<open>Accept\<close> of caller \<open>k\<close>: receive a pair from \<open>conns\<close> and return it, or receive from
  \<open>closeCh\<close> and return \<open>net.ErrClosed\<close>, or park.
\<close>

definition Accept :: "nat \<Rightarrow> choice \<Rightarrow> sys \<Rightarrow> sys option" where
  "Accept k ch s =
     (if k < length (callers s) \<and> callers s ! k \<noteq> CParked then
        (case ch of
           OnConns i \<Rightarrow>
             if i < length (tasks s) then
               (case tasks s ! i of
                  TParked p \<Rightarrow>
                    Some (s\<lparr>tasks := (tasks s)[i := TSent (snd p)],
                            callers := (callers s)[k := CRet p],
                            delivered := delivered s @ [(i, p)]\<rparr>)
                | _ \<Rightarrow> None)
             else None
         | OnCloseCh \<Rightarrow>
             if closeCh (lst s) then Some (s\<lparr>callers := (callers s)[k := CRet (None, Some ErrClosed)]\<rparr>)
             else None
         | Park \<Rightarrow>
             if \<not> closeCh (lst s) \<and> \<not> list_ex parked_task (tasks s) then
               Some (s\<lparr>callers := (callers s)[k := CParked]\<rparr>)
             else None)
      else None)"

text \<open>\<open>Close\<close> of closer \<open>j\<close>, first step: the compare-and-swap on \<open>closed\<close>.\<close>

fun in_Close :: "closer \<Rightarrow> bool" where
  "in_Close KSignal = True"
| "in_Close (KLoop n err) = True"
| "in_Close c = False"

definition close_cas :: "nat \<Rightarrow> sys \<Rightarrow> sys option" where
  "close_cas j s =
     (if j < length (closers s) \<and> \<not> in_Close (closers s ! j) then
        (if closed (lst s) then Some (s\<lparr>closers := (closers s)[j := KRet (Some ErrClosed)]\<rparr>)
         else Some (s\<lparr>lst := (lst s)\<lparr>closed := True\<rparr>, closers := (closers s)[j := KSignal]\<rparr>))
      else None)"

text \<open>
  \<open>close(l.closeCh)\<close>: every goroutine parked in a \<open>select\<close> is woken on its case of
  \<open>closeCh\<close>. Closing the channel twice panics.
\<close>

definition close_signal :: "nat \<Rightarrow> sys \<Rightarrow> sys option" where
  "close_signal j s =
     (if j < length (closers s) \<and> closers s ! j = KSignal then
        (if closeCh (lst s) then Some (s\<lparr>panicked := True\<rparr>)
         else Some (s\<lparr>lst := (lst s)\<lparr>closeCh := True\<rparr>,
                      wld := (wld s)\<lparr>trace := trace (wld s) @ [EvSignal]\<rparr>,
                      tasks := map wake_task (tasks s),
                      callers := map wake_caller (callers s),
                      closers := (closers s)[j := KLoop 0 None]\<rparr>))
      else None)"

text \<open>One round of the loop of \<open>Close\<close> over the sub-listeners, or its return.\<close>

definition close_next :: "nat \<Rightarrow> sys \<Rightarrow> sys option" where
  "close_next j s =
     (if j < length (closers s) then
        (case closers s ! j of
           KLoop n err \<Rightarrow>
             if n < length (listeners (lst s)) then
               (case ln_Close (wld s) (listeners (lst s) ! n) of
                  None \<Rightarrow> Some (s\<lparr>panicked := True\<rparr>)
                | Some (cerr, w') \<Rightarrow>
                    Some (s\<lparr>wld := w',
                            closers := (closers s)[j := KLoop (Suc n)
                              (if cerr \<noteq> None \<and> err = None then cerr else err)]\<rparr>))
             else Some (s\<lparr>closers := (closers s)[j := KRet err]\<rparr>)
         | _ \<Rightarrow> None)
      else None)"

text \<open>The steps of the program. A program that has panicked takes no step.\<close>

datatype action =
    ActLnAccept nat bool "error option"
  | ActTaskSelect nat choice
  | ActTaskLoop nat
  | ActTaskQuit nat
  | ActAccept nat choice
  | ActCloseCas nat
  | ActCloseSignal nat
  | ActCloseNext nat

fun step :: "action \<Rightarrow> sys \<Rightarrow> sys option" where
  "step a s =
     (if panicked s then None
      else
        (case a of
           ActLnAccept i has_conn err \<Rightarrow> ln_Accept i has_conn err s
         | ActTaskSelect i ch \<Rightarrow> task_select i ch s
         | ActTaskLoop i \<Rightarrow> task_loop i s
         | ActTaskQuit i \<Rightarrow> task_quit i s
         | ActAccept k ch \<Rightarrow> Accept k ch s
         | ActCloseCas j \<Rightarrow> close_cas j s
         | ActCloseSignal j \<Rightarrow> close_signal j s
         | ActCloseNext j \<Rightarrow> close_next j s))"

fun run :: "action list \<Rightarrow> sys \<Rightarrow> sys option" where
  "run [] s = Some s"
| "run (a # as) s = (case step a s of None \<Rightarrow> None | Some s' \<Rightarrow> run as s')"

text \<open>
  The program as \<open>Listen\<close> leaves it: one task per sub-listener, each about to call
  \<open>ln.Accept()\<close>, and some number of goroutines that may call \<open>Accept\<close> and \<open>Close\<close>.
\<close>

definition start :: "Listener \<Rightarrow> world \<Rightarrow> nat \<Rightarrow> nat \<Rightarrow> sys" where
  "start l w nc nk =
     \<lparr>lst = l, wld = w, tasks = map (\<lambda>ln. TAccept) (listeners l),
      callers = replicate nc CIdle, closers = replicate nk KIdle,
      next_conn = 0, delivered = [], conn_closed = [], panicked = False\<rparr>"

section \<open>Reference notions for the statements\<close>

text \<open>What closing socket \<open>ln\<close> reports in world \<open>w\<close>.\<close>

definition close_result :: "world \<Rightarrow> nat \<Rightarrow> error option" where
  "close_result w ln =
     (if sock_open (socks w ! ln) then sock_fault (socks w ! ln)
      else Some (OpError ''close'' ErrClosed))"

text \<open>The first non-nil error of a sequence of results, nil when there is none.\<close>

fun first_error :: "error option list \<Rightarrow> error option" where
  "first_error [] = None"
| "first_error (None # es) = first_error es"
| "first_error (Some e # es) = Some e"

text \<open>
  The connection a task has obtained from its sub-listener and neither handed over nor
  closed yet.
\<close>

fun held :: "task \<Rightarrow> conn option" where
  "held (TSelect p) = fst p"
| "held (TParked p) = fst p"
| "held (TClosing c) = c"
| "held t = None"

text \<open>
  How many tasks hold connection \<open>c\<close>, how many times it was delivered to a caller of
  \<open>Accept\<close>, and how many times a task closed it.
\<close>

definition holders :: "sys \<Rightarrow> conn \<Rightarrow> nat" where
  "holders s c = length (filter (\<lambda>t. held t = Some c) (tasks s))"



text \<open>The pairs delivered that came from task \<open>i\<close>, in order.\<close>

definition delivered_from :: "nat \<Rightarrow> sys \<Rightarrow> connErrPair list" where
  "delivered_from i s = map snd (filter (\<lambda>d. fst d = i) (delivered s))"

text \<open>The task an action belongs to, if it is a step of a task on its own.\<close>

fun task_of :: "action \<Rightarrow> nat option" where
  "task_of (ActLnAccept i has_conn err) = Some i"
| "task_of (ActTaskSelect i ch) = Some i"
| "task_of (ActTaskLoop i) = Some i"
| "task_of (ActTaskQuit i) = Some i"
| "task_of a = None"


text \<open>How many of the pairs delivered from task \<open>i\<close> carry an error.\<close>

definition errors_seen :: "nat \<Rightarrow> sys \<Rightarrow> nat" where
  "errors_seen i s = length (filter (\<lambda>p. snd p \<noteq> None) (delivered_from i s))"

text \<open>
  Once an error of task \<open>i\<close> has been delivered, it is the only one and the task is past
  its send for good.
\<close>

definition at_most_once :: "nat \<Rightarrow> sys \<Rightarrow> bool" where
  "at_most_once i s =
     (errors_seen i s = 0
    \<or> (errors_seen i s = 1 \<and> i < length (tasks s)
        \<and> (tasks s ! i = TDone \<or> (\<exists>e. tasks s ! i = TSent (Some e)))))"

text \<open>
  Where task \<open>i\<close> can be once its \<open>ln.Accept()\<close> has returned the pair \<open>p\<close>, \<open>d0\<close> being
  what it had delivered until then: still before or in the \<open>select\<close>, nothing more
  delivered; in the branch of \<open>closeCh\<close> or returned, the channel closed, nothing more
  delivered; or past the send, \<open>p\<close> delivered and nothing else.
\<close>

definition after_accept :: "nat \<Rightarrow> connErrPair \<Rightarrow> connErrPair list \<Rightarrow> sys \<Rightarrow> bool" where
  "after_accept i p d0 s =
     (i < length (tasks s)
    \<and> ((delivered_from i s = d0 \<and> (tasks s ! i = TSelect p \<or> tasks s ! i = TParked p))
      \<or> (delivered_from i s = d0 \<and> closeCh (lst s)
          \<and> (tasks s ! i = TClosing (fst p) \<or> tasks s ! i = TDone))
      \<or> (delivered_from i s = d0 @ [p]
          \<and> (tasks s ! i = TSent (snd p) \<or> tasks s ! i = TDone))))"



section \<open>Example states\<close>

text \<open>Two open sockets whose closes fail with different errors, and a listener over them.\<close>

definition w_two :: world where
  "w_two = \<lparr>socks = [\<lparr>sock_addr = ''127.0.0.1:8080'', sock_open = True, sock_fault = Some (Errno 1)\<rparr>,
                     \<lparr>sock_addr = ''127.0.0.1:8081'', sock_open = True, sock_fault = Some (Errno 2)\<rparr>],
            trace = []\<rparr>"

definition l_two :: Listener where
  "l_two = \<lparr>listeners = [0, 1], closeCh = False, closed = False\<rparr>"

text \<open>
  A platform that refuses one address and binds every other address as asked, and the
  address list of the package's test of a failing bind.
\<close>

definition net_strict :: platform where
  "net_strict w addr =
     (if addr = ''invalid address'' then Inl (Errno 22) else Inr (addr, None))"

definition w_empty :: world where
  "w_empty = \<lparr>socks = [], trace = []\<rparr>"


definition addrs_good :: "string list" where
  "addrs_good = [''127.0.0.1:8080'', ''127.0.0.1:8081'']"

text \<open>
  What holds of the program at every moment: it has not panicked; once \<open>closeCh\<close> is
  closed the flag is set and no goroutine is parked in a \<open>select\<close>; at most one caller of
  \<open>Close\<close> stands between the compare-and-swap and the close of the channel, and then
  the channel is still open; every sub-listener exists.
\<close>

definition inv :: "sys \<Rightarrow> bool" where
  "inv s =
     (\<not> panicked s
    \<and> (closeCh (lst s) \<longrightarrow>
         closed (lst s)
       \<and> (\<forall>i < length (tasks s). \<not> parked_task (tasks s ! i))
       \<and> (\<forall>k < length (callers s). callers s ! k \<noteq> CParked))
    \<and> (\<forall>j < length (closers s). closers s ! j = KSignal \<longrightarrow>
         closed (lst s) \<and> \<not> closeCh (lst s)
       \<and> (\<forall>j' < length (closers s). closers s ! j' = KSignal \<longrightarrow> j' = j))
    \<and> (\<forall>ln \<in> set (listeners (lst s)). ln < length (socks (wld s))))"

text \<open>The result of \<open>Listen\<close> on two good addresses, on the platform above.\<close>

definition l_good :: Listener where
  "l_good = \<lparr>listeners = [0, 1], closeCh = False, closed = False\<rparr>"

definition w_good :: world where
  "w_good =
     \<lparr>socks = [\<lparr>sock_addr = ''127.0.0.1:8080'', sock_open = True, sock_fault = None\<rparr>,
               \<lparr>sock_addr = ''127.0.0.1:8081'', sock_open = True, sock_fault = None\<rparr>],
      trace = [EvBind ''127.0.0.1:8080'' 0, EvBind ''127.0.0.1:8081'' 1, EvGo 0, EvGo 1]\<rparr>"

text \<open>
  A run of that program with one caller of \<open>Accept\<close> and one of \<open>Close\<close>: the caller
  parks, the first sub-listener accepts a connection and hands it over, the second
  accepts one and parks on the hand-off, and \<open>Close\<close> closes the channel. Then \<open>Close\<close>
  closes the sub-listeners and returns, the second task closes its connection, and the
  caller calls \<open>Accept\<close> again.
\<close>

definition acts_before :: "action list" where
  "acts_before =
     [ActAccept 0 Park, ActLnAccept 0 True None, ActTaskSelect 0 (OnConns 0), ActTaskLoop 0,
      ActLnAccept 1 True None, ActTaskSelect 1 Park, ActCloseCas 0, ActCloseSignal 0]"

definition acts_after :: "action list" where
  "acts_after =
     [ActCloseNext 0, ActCloseNext 0, ActCloseNext 0, ActTaskQuit 1, ActAccept 0 OnCloseCh]"

definition s_shut :: sys where
  "s_shut =
     \<lparr>lst = \<lparr>listeners = [0, 1], closeCh = True, closed = True\<rparr>,
      wld = \<lparr>socks = [\<lparr>sock_addr = ''127.0.0.1:8080'', sock_open = True, sock_fault = None\<rparr>,
                      \<lparr>sock_addr = ''127.0.0.1:8081'', sock_open = True, sock_fault = None\<rparr>],
             trace = [EvBind ''127.0.0.1:8080'' 0, EvBind ''127.0.0.1:8081'' 1, EvGo 0, EvGo 1,
                      EvSignal]\<rparr>,
      tasks = [TAccept, TClosing (Some 1)], callers = [CRet (Some 0, None)],
      closers = [KLoop 0 None], next_conn = 2, delivered = [(0, Some 0, None)],
      conn_closed = [], panicked = False\<rparr>"

definition s_end :: sys where
  "s_end =
     \<lparr>lst = \<lparr>listeners = [0, 1], closeCh = True, closed = True\<rparr>,
      wld = \<lparr>socks = [\<lparr>sock_addr = ''127.0.0.1:8080'', sock_open = False, sock_fault = None\<rparr>,
                      \<lparr>sock_addr = ''127.0.0.1:8081'', sock_open = False, sock_fault = None\<rparr>],
             trace = [EvBind ''127.0.0.1:8080'' 0, EvBind ''127.0.0.1:8081'' 1, EvGo 0, EvGo 1,
                      EvSignal, EvLnClose 0, EvLnClose 1]\<rparr>,
      tasks = [TAccept, TDone], callers = [CRet (None, Some ErrClosed)],
      closers = [KRet None], next_conn = 2, delivered = [(0, Some 0, None)],
      conn_closed = [1], panicked = False\<rparr>"

text \<open>
  Another run of it: the caller of \<open>Accept\<close> parks and the caller of \<open>Close\<close> passes the
  compare-and-swap; the channel is not closed yet.
\<close>

definition acts_parked :: "action list" where
  "acts_parked = [ActAccept 0 Park, ActCloseCas 0]"

definition s_parked :: sys where
  "s_parked =
     \<lparr>lst = \<lparr>listeners = [0, 1], closeCh = False, closed = True\<rparr>,
      wld = w_good,
      tasks = [TAccept, TAccept], callers = [CParked],
      closers = [KSignal], next_conn = 0, delivered = [],
      conn_closed = [], panicked = False\<rparr>"

text \<open>
  A run in which the first sub-listener fails: its error is handed to the caller of
  \<open>Accept\<close>, the task returns, and the second sub-listener goes on serving.
\<close>

definition acts_err :: "action list" where
  "acts_err = [ActLnAccept 0 False (Some (Errno 24)), ActAccept 0 Park]"

definition s_err :: sys where
  "s_err =
     \<lparr>lst = l_good, wld = w_good,
      tasks = [TSelect (None, Some (Errno 24)), TAccept], callers = [CParked],
      closers = [KIdle], next_conn = 0, delivered = [], conn_closed = [], panicked = False\<rparr>"

definition acts_served :: "action list" where
  "acts_served =
     [ActTaskSelect 0 (OnConns 0), ActTaskLoop 0, ActAccept 0 Park, ActLnAccept 1 True None,
      ActTaskSelect 1 (OnConns 0)]"

definition s_served :: sys where
  "s_served =
     \<lparr>lst = l_good, wld = w_good,
      tasks = [TDone, TSent None], callers = [CRet (Some 0, None)],
      closers = [KIdle], next_conn = 1,
      delivered = [(0, None, Some (Errno 24)), (1, Some 0, None)],
      conn_closed = [], panicked = False\<rparr>"

text \<open>
  A run in which \<open>Close\<close> comes first: the first sub-listener, closed, fails its
  \<open>ln.Accept()\<close> with \<open>net.ErrClosed\<close> wrapped in an \<open>OpError\<close>, and the task takes the
  branch of \<open>closeCh\<close>.
\<close>

definition acts_drop :: "action list" where
  "acts_drop =
     [ActCloseCas 0, ActCloseSignal 0, ActCloseNext 0,
      ActLnAccept 0 False (Some (OpError ''accept'' ErrClosed)),
      ActTaskSelect 0 OnCloseCh, ActTaskQuit 0]"

text \<open>
  A run in which the first sub-listener is closed from outside and the listener is not:
  the error of its \<open>ln.Accept()\<close> reaches the caller of \<open>Accept\<close>.
\<close>

definition acts_degraded :: "action list" where
  "acts_degraded =
     [ActAccept 0 Park, ActLnAccept 0 False (Some (OpError ''accept'' ErrClosed)),
      ActTaskSelect 0 (OnConns 0)]"

definition s_degraded :: sys where
  "s_degraded =
     \<lparr>lst = l_good, wld = w_good,
      tasks = [TSent (Some (OpError ''accept'' ErrClosed)), TAccept],
      callers = [CRet (None, Some (OpError ''accept'' ErrClosed))],
      closers = [KIdle], next_conn = 0,
      delivered = [(0, None, Some (OpError ''accept'' ErrClosed))],
      conn_closed = [], panicked = False\<rparr>"

section \<open>Closing\<close>

lemma ln_Close_valid:
  assumes "ln < length (socks w)"
  shows "ln_Close w ln =
    Some (close_result w ln,
          w\<lparr>socks := (socks w)[ln := (socks w ! ln)\<lparr>sock_open := False\<rparr>],
            trace := trace w @ [EvLnClose ln]\<rparr>)"
proof (cases "sock_open (socks w ! ln)")
  case True
  then show ?thesis using assms by (simp add: ln_Close_def close_result_def)
next
  case False
  then have "(socks w ! ln)\<lparr>sock_open := False\<rparr> = socks w ! ln" by simp
  then have "(socks w)[ln := (socks w ! ln)\<lparr>sock_open := False\<rparr>] = socks w" by simp
  then show ?thesis using assms False by (simp add: ln_Close_def close_result_def)
qed

lemma close_result_other:
  "x \<noteq> ln \<Longrightarrow>
   close_result (w\<lparr>socks := (socks w)[ln := s], trace := t\<rparr>) x = close_result w x"
  by (simp add: close_result_def)

lemma close_loop_spec:
  assumes "distinct lns" and "\<forall>ln \<in> set lns. ln < length (socks w)"
  shows "\<exists>w'. close_loop lns err w =
            Some (case err of None \<Rightarrow> first_error (map (close_result w) lns) | Some e \<Rightarrow> Some e, w')
        \<and> trace w' = trace w @ map EvLnClose lns
        \<and> length (socks w') = length (socks w)
        \<and> (\<forall>h < length (socks w).
              sock_addr (socks w' ! h) = sock_addr (socks w ! h)
            \<and> sock_fault (socks w' ! h) = sock_fault (socks w ! h)
            \<and> sock_open (socks w' ! h) = (sock_open (socks w ! h) \<and> h \<notin> set lns))"
  using assms
proof (induction lns arbitrary: err w)
  case Nil
  then show ?case by (simp split: option.splits)
next
  case (Cons ln lns)
  let ?w1 = "w\<lparr>socks := (socks w)[ln := (socks w ! ln)\<lparr>sock_open := False\<rparr>],
               trace := trace w @ [EvLnClose ln]\<rparr>"
  let ?err1 = "if close_result w ln \<noteq> None \<and> err = None then close_result w ln else err"
  have v: "ln < length (socks w)" using Cons.prems by simp
  have step: "close_loop (ln # lns) err w = close_loop lns ?err1 ?w1"
    by (simp add: ln_Close_valid[OF v])
  have d: "distinct lns" and nin: "ln \<notin> set lns" using Cons.prems by auto
  have val: "\<forall>x \<in> set lns. x < length (socks ?w1)" using Cons.prems by simp
  from Cons.IH[OF d val, of ?err1] obtain w' where
    r: "close_loop lns ?err1 ?w1 =
          Some (case ?err1 of None \<Rightarrow> first_error (map (close_result ?w1) lns) | Some e \<Rightarrow> Some e, w')"
    and t: "trace w' = trace ?w1 @ map EvLnClose lns"
    and len: "length (socks w') = length (socks ?w1)"
    and st: "\<forall>h < length (socks ?w1).
              sock_addr (socks w' ! h) = sock_addr (socks ?w1 ! h)
            \<and> sock_fault (socks w' ! h) = sock_fault (socks ?w1 ! h)
            \<and> sock_open (socks w' ! h) = (sock_open (socks ?w1 ! h) \<and> h \<notin> set lns)"
    by blast
  have same: "map (close_result ?w1) lns = map (close_result w) lns"
    using nin by (intro map_cong refl close_result_other) auto
  have res: "(case ?err1 of None \<Rightarrow> first_error (map (close_result ?w1) lns) | Some e \<Rightarrow> Some e)
           = (case err of None \<Rightarrow> first_error (map (close_result w) (ln # lns)) | Some e \<Rightarrow> Some e)"
    unfolding same by (cases err; cases "close_result w ln") simp_all
  have st': "\<forall>h < length (socks w).
              sock_addr (socks w' ! h) = sock_addr (socks w ! h)
            \<and> sock_fault (socks w' ! h) = sock_fault (socks w ! h)
            \<and> sock_open (socks w' ! h) = (sock_open (socks w ! h) \<and> h \<notin> set (ln # lns))"
  proof (intro allI impI)
    fix h assume h: "h < length (socks w)"
    then have "h < length (socks ?w1)" by simp
    with st have a: "sock_addr (socks w' ! h) = sock_addr (socks ?w1 ! h)
            \<and> sock_fault (socks w' ! h) = sock_fault (socks ?w1 ! h)
            \<and> sock_open (socks w' ! h) = (sock_open (socks ?w1 ! h) \<and> h \<notin> set lns)" by blast
    show "sock_addr (socks w' ! h) = sock_addr (socks w ! h)
            \<and> sock_fault (socks w' ! h) = sock_fault (socks w ! h)
            \<and> sock_open (socks w' ! h) = (sock_open (socks w ! h) \<and> h \<notin> set (ln # lns))"
      using a h by (cases "h = ln") (auto simp: nth_list_update)
  qed
  show ?case
    unfolding step using r t len st' res by simp
qed


lemma close_result_trace [simp]: "close_result (w\<lparr>trace := t\<rparr>) = close_result w"
  by (rule ext) (simp add: close_result_def)

lemma Close_first:
  assumes "\<not> closed l" and "\<not> closeCh l" and "distinct (listeners l)"
    and "\<forall>ln \<in> set (listeners l). ln < length (socks w)"
  shows "\<exists>w'. Close l w = Some (first_error (map (close_result w) (listeners l)),
                              l\<lparr>closeCh := True, closed := True\<rparr>, w')
        \<and> trace w' = trace w @ EvSignal # map EvLnClose (listeners l)
        \<and> length (socks w') = length (socks w)
        \<and> (\<forall>h < length (socks w).
              sock_addr (socks w' ! h) = sock_addr (socks w ! h)
            \<and> sock_fault (socks w' ! h) = sock_fault (socks w ! h)
            \<and> sock_open (socks w' ! h) = (sock_open (socks w ! h) \<and> h \<notin> set (listeners l)))"
proof -
  let ?w0 = "w\<lparr>trace := trace w @ [EvSignal]\<rparr>"
  have v: "\<forall>ln \<in> set (listeners l). ln < length (socks ?w0)" using assms(4) by simp
  from close_loop_spec[OF assms(3) v, of None] obtain w' where
    r: "close_loop (listeners l) None ?w0 = Some (first_error (map (close_result ?w0) (listeners l)), w')"
    and t: "trace w' = trace ?w0 @ map EvLnClose (listeners l)"
    and len: "length (socks w') = length (socks ?w0)"
    and st: "\<forall>h < length (socks ?w0).
              sock_addr (socks w' ! h) = sock_addr (socks ?w0 ! h)
            \<and> sock_fault (socks w' ! h) = sock_fault (socks ?w0 ! h)
            \<and> sock_open (socks w' ! h) = (sock_open (socks ?w0 ! h) \<and> h \<notin> set (listeners l))"
    by auto
  show ?thesis
    using r t len st assms(1,2) by (simp add: Close_def)
qed

lemma Close_again: "closed l \<Longrightarrow> Close l w = Some (Some ErrClosed, l, w)"
  by (simp add: Close_def)

lemma first_error_None: "first_error rs = None \<longleftrightarrow> (\<forall>r \<in> set rs. r = None)"
  by (induction rs rule: first_error.induct) auto

lemma first_error_Some:
  "first_error rs = Some e \<Longrightarrow> \<exists>i < length rs. rs ! i = Some e \<and> (\<forall>j < i. rs ! j = None)"
proof (induction rs rule: first_error.induct)
  case 1
  then show ?case by simp
next
  case (2 es)
  then obtain i where i: "i < length es" "es ! i = Some e" "\<forall>j < i. es ! j = None" by auto
  have "\<forall>j < Suc i. (None # es) ! j = None"
    using i(3) by (auto simp: nth_Cons split: nat.splits)
  with i show ?case by (intro exI[of _ "Suc i"]) simp
next
  case (3 x es)
  then show ?case by (intro exI[of _ 0]) simp
qed

text \<open>
  C2. The first \<open>Close\<close> (the flag is still false) closes the shutdown channel, then
  closes every sub-listener in registration order, as the trace shows, and returns the
  first close error met, nil when there is none. Every later \<open>Close\<close> on the listener it
  leaves returns \<open>net.ErrClosed\<close> and changes neither the listener nor the world.
\<close>

theorem Close_exactly_once:
  assumes "\<not> closed l" and "\<not> closeCh l" and "distinct (listeners l)"
    and "\<forall>ln \<in> set (listeners l). ln < length (socks w)"
  shows "\<exists>l' w'. Close l w = Some (first_error (map (close_result w) (listeners l)), l', w')
        \<and> closed l' \<and> closeCh l' \<and> listeners l' = listeners l
        \<and> trace w' = trace w @ EvSignal # map EvLnClose (listeners l)
        \<and> (\<forall>ln \<in> set (listeners l). \<not> sock_open (socks w' ! ln))
        \<and> (\<forall>w2. Close l' w2 = Some (Some ErrClosed, l', w2))"
proof -
  from Close_first[OF assms] obtain w' where
    r: "Close l w = Some (first_error (map (close_result w) (listeners l)),
                              l\<lparr>closeCh := True, closed := True\<rparr>, w')"
    and t: "trace w' = trace w @ EvSignal # map EvLnClose (listeners l)"
    and st: "\<forall>h < length (socks w). sock_open (socks w' ! h) = (sock_open (socks w ! h) \<and> h \<notin> set (listeners l))"
    by blast
  have "\<forall>ln \<in> set (listeners l). \<not> sock_open (socks w' ! ln)"
    using st assms(4) by blast
  then show ?thesis
    using r t by (simp add: Close_again)
qed

theorem Close_exactly_once_witness:
  "\<not> closed l_two \<and> \<not> closeCh l_two \<and> distinct (listeners l_two)
   \<and> (\<exists>l' w'. Close l_two w_two = Some (Some (Errno 1), l', w')
        \<and> closed l' \<and> closeCh l'
        \<and> trace w' = [EvSignal, EvLnClose 0, EvLnClose 1]
        \<and> Close l' w' = Some (Some ErrClosed, l', w'))"
proof -
  have a: "\<not> closed l_two" "\<not> closeCh l_two" "distinct (listeners l_two)"
    "\<forall>ln \<in> set (listeners l_two). ln < length (socks w_two)"
    by (simp_all add: l_two_def w_two_def)
  from Close_exactly_once[OF a] obtain l' w' where
    "Close l_two w_two = Some (first_error (map (close_result w_two) (listeners l_two)), l', w')"
    "closed l'" "closeCh l'"
    "trace w' = trace w_two @ EvSignal # map EvLnClose (listeners l_two)"
    "\<forall>w2. Close l' w2 = Some (Some ErrClosed, l', w2)"
    by blast
  then show ?thesis
    using a(1-3) by (auto simp: l_two_def w_two_def close_result_def)
qed

text \<open>
  C6, as stated, fails: with two sub-listeners whose closes fail with different errors,
  \<open>Close\<close> returns the first error alone, and the second cannot be found in it.
\<close>

theorem Close_drops_later_errors_counterexample:
  "map_option fst (Close l_two w_two) = Some (Some (Errno 1))
   \<and> close_result w_two 1 = Some (Errno 2)
   \<and> \<not> errors_Is (Errno 1) (Errno 2)"
  by (simp add: Close_def l_two_def w_two_def ln_Close_def close_result_def)

text \<open>
  C6, amended. \<open>Close\<close> closes every sub-listener and returns exactly one error: that
  of the earliest sub-listener (in registration order) whose close fails, nil when none
  fails. Errors of later sub-listeners are not part of the result.
\<close>

theorem Close_returns_earliest_error:
  assumes "\<not> closed l" and "\<not> closeCh l" and "distinct (listeners l)"
    and "\<forall>ln \<in> set (listeners l). ln < length (socks w)"
  shows "\<exists>err l' w'. Close l w = Some (err, l', w')
        \<and> (\<forall>ln \<in> set (listeners l). \<not> sock_open (socks w' ! ln))
        \<and> (case err of
             None \<Rightarrow> \<forall>ln \<in> set (listeners l). close_result w ln = None
           | Some e \<Rightarrow> \<exists>i < length (listeners l).
                 close_result w (listeners l ! i) = Some e
               \<and> (\<forall>j < i. close_result w (listeners l ! j) = None))"
proof -
  let ?rs = "map (close_result w) (listeners l)"
  from Close_first[OF assms] obtain w' where
    r: "Close l w = Some (first_error ?rs, l\<lparr>closeCh := True, closed := True\<rparr>, w')"
    and st: "\<forall>h < length (socks w). sock_open (socks w' ! h) = (sock_open (socks w ! h) \<and> h \<notin> set (listeners l))"
    by blast
  have c: "\<forall>ln \<in> set (listeners l). \<not> sock_open (socks w' ! ln)"
    using st assms(4) by blast
  have e: "case first_error ?rs of
             None \<Rightarrow> \<forall>ln \<in> set (listeners l). close_result w ln = None
           | Some e \<Rightarrow> \<exists>i < length (listeners l).
                 close_result w (listeners l ! i) = Some e
               \<and> (\<forall>j < i. close_result w (listeners l ! j) = None)"
  proof (cases "first_error ?rs")
    case None
    then show ?thesis using first_error_None[of ?rs] by simp
  next
    case (Some e)
    from first_error_Some[OF Some] obtain i where
      "i < length ?rs" "?rs ! i = Some e" "\<forall>j < i. ?rs ! j = None" by blast
    then have "i < length (listeners l) \<and> close_result w (listeners l ! i) = Some e
               \<and> (\<forall>j < i. close_result w (listeners l ! j) = None)"
      by auto
    then show ?thesis using Some by auto
  qed
  show ?thesis using r c e by blast
qed

theorem Close_returns_earliest_error_witness:
  "\<not> closed l_two \<and> \<not> closeCh l_two \<and> distinct (listeners l_two)
   \<and> (\<exists>l' w'. Close l_two w_two = Some (Some (Errno 1), l', w')
        \<and> \<not> sock_open (socks w' ! 0) \<and> \<not> sock_open (socks w' ! 1))"
proof -
  have a: "\<not> closed l_two" "\<not> closeCh l_two" "distinct (listeners l_two)"
    "\<forall>ln \<in> set (listeners l_two). ln < length (socks w_two)"
    by (simp_all add: l_two_def w_two_def)
  from Close_returns_earliest_error[OF a] obtain err l' w' where
    r: "Close l_two w_two = Some (err, l', w')"
    and c: "\<forall>ln \<in> set (listeners l_two). \<not> sock_open (socks w' ! ln)"
    by blast
  have "map_option fst (Close l_two w_two) = Some (Some (Errno 1))"
    by (simp add: Close_def l_two_def w_two_def ln_Close_def)
  with r have "err = Some (Errno 1)" by simp
  with r c show ?thesis using a(1-3) by (auto simp: l_two_def)
qed

section \<open>Construction\<close>

lemma upt_shift: "[n..<Suc (n + m)] = n # [Suc n..<Suc (n + m)]"
  by (simp add: upt_conv_Cons del: upt_Suc)

lemma bind_loop_spec:
  assumes "\<not> closed mln" and "\<not> closeCh mln" and "distinct (listeners mln)"
    and "\<forall>ln \<in> set (listeners mln). ln < length (socks w)"
  shows "(\<exists>w' news.
            bind_loop net addrs mln w =
              Some (w', Inr (mln\<lparr>listeners := listeners mln @ [length (socks w)..<length (socks w) + length addrs]\<rparr>))
          \<and> socks w' = socks w @ news \<and> length news = length addrs
          \<and> trace w' = trace w @ map2 EvBind addrs [length (socks w)..<length (socks w) + length addrs]
          \<and> (\<forall>i < length addrs. sock_open (news ! i)
                \<and> (\<exists>wi. net wi (addrs ! i) = Inr (sock_addr (news ! i), sock_fault (news ! i)))))
       \<or> (\<exists>w' k lerr wk news.
            bind_loop net addrs mln w =
              Some (w', Inl (errors_Join [Some lerr,
                      first_error (map (close_result wk) (listeners mln @ [length (socks w)..<length (socks w) + k]))]))
          \<and> k < length addrs
          \<and> socks wk = socks w @ news \<and> length news = k \<and> (\<forall>i < k. sock_open (news ! i))
          \<and> trace wk = trace w @ map2 EvBind (take k addrs) [length (socks w)..<length (socks w) + k]
          \<and> net wk (addrs ! k) = Inl lerr
          \<and> trace w' = trace wk @ EvBindFailed (addrs ! k) # EvSignal
                # map EvLnClose (listeners mln @ [length (socks w)..<length (socks w) + k])
          \<and> length (socks w') = length (socks wk)
          \<and> (\<forall>h < length (socks wk).
                sock_addr (socks w' ! h) = sock_addr (socks wk ! h)
              \<and> sock_fault (socks w' ! h) = sock_fault (socks wk ! h)
              \<and> sock_open (socks w' ! h) =
                  (sock_open (socks wk ! h)
                   \<and> h \<notin> set (listeners mln @ [length (socks w)..<length (socks w) + k]))))"
    (is "?OK addrs mln w \<or> ?KO addrs mln w")
  using assms
proof (induction addrs arbitrary: mln w)
  case Nil
  have "?OK [] mln w" by simp
  then show ?case ..
next
  case (Cons a as)
  let ?n = "length (socks w)"
  show ?case
  proof (cases "net w a")
    case (Inl lerr)
    let ?w1 = "w\<lparr>trace := trace w @ [EvBindFailed a]\<rparr>"
    have l: "lc_Listen net w a = (?w1, Inl lerr)" by (simp add: lc_Listen_def Inl)
    have v: "\<forall>ln \<in> set (listeners mln). ln < length (socks ?w1)" using Cons.prems(4) by simp
    from Close_first[OF Cons.prems(1,2,3) v] obtain w' where
      c: "Close mln ?w1 = Some (first_error (map (close_result ?w1) (listeners mln)),
                              mln\<lparr>closeCh := True, closed := True\<rparr>, w')"
      and t: "trace w' = trace ?w1 @ EvSignal # map EvLnClose (listeners mln)"
      and len: "length (socks w') = length (socks ?w1)"
      and st: "\<forall>h < length (socks ?w1).
              sock_addr (socks w' ! h) = sock_addr (socks ?w1 ! h)
            \<and> sock_fault (socks w' ! h) = sock_fault (socks ?w1 ! h)
            \<and> sock_open (socks w' ! h) = (sock_open (socks ?w1 ! h) \<and> h \<notin> set (listeners mln))"
      by blast
    have r: "bind_loop net (a # as) mln w =
        Some (w', Inl (errors_Join [Some lerr, first_error (map (close_result w) (listeners mln))]))"
      using l c by simp
    have "?KO (a # as) mln w"
      apply (rule exI[of _ w'], rule exI[of _ 0], rule exI[of _ lerr], rule exI[of _ w],
             rule exI[of _ "[]"])
      using r t len st Inl by simp
    then show ?thesis ..
  next
    case (Inr bf)
    obtain bound fault where bf: "bf = (bound, fault)" by (cases bf)
    let ?new = "\<lparr>sock_addr = bound, sock_open = True, sock_fault = fault\<rparr>"
    let ?w1 = "w\<lparr>socks := socks w @ [?new], trace := trace w @ [EvBind a ?n]\<rparr>"
    let ?m1 = "mln\<lparr>listeners := listeners mln @ [?n]\<rparr>"
    have l: "lc_Listen net w a = (?w1, Inr ?n)" by (simp add: lc_Listen_def Inr bf)
    have step: "bind_loop net (a # as) mln w = bind_loop net as ?m1 ?w1" using l by simp
    have p: "\<not> closed ?m1" "\<not> closeCh ?m1" "distinct (listeners ?m1)"
      "\<forall>ln \<in> set (listeners ?m1). ln < length (socks ?w1)"
      using Cons.prems by (auto simp: less_Suc_eq)
    have n1: "length (socks ?w1) = Suc ?n" by simp
    have lst: "\<And>k. listeners ?m1 @ [Suc ?n..<Suc ?n + k] = listeners mln @ [?n..<?n + Suc k]"
      by (simp add: upt_shift del: upt_Suc)
    from Cons.IH[OF p] have "?OK as ?m1 ?w1 \<or> ?KO as ?m1 ?w1" .
    then show ?thesis
    proof
      assume "?OK as ?m1 ?w1"
      then obtain w' news where
        r: "bind_loop net as ?m1 ?w1 =
              Some (w', Inr (?m1\<lparr>listeners := listeners ?m1 @ [length (socks ?w1)..<length (socks ?w1) + length as]\<rparr>))"
        and s: "socks w' = socks ?w1 @ news" and ln: "length news = length as"
        and t: "trace w' = trace ?w1 @ map2 EvBind as [length (socks ?w1)..<length (socks ?w1) + length as]"
        and o: "\<forall>i < length as. sock_open (news ! i)
                \<and> (\<exists>wi. net wi (as ! i) = Inr (sock_addr (news ! i), sock_fault (news ! i)))"
        by blast
      have o': "\<forall>i < length (a # as). sock_open ((?new # news) ! i)
                \<and> (\<exists>wi. net wi ((a # as) ! i) = Inr (sock_addr ((?new # news) ! i), sock_fault ((?new # news) ! i)))"
      proof (intro allI impI)
        fix i assume "i < length (a # as)"
        then show "sock_open ((?new # news) ! i)
                \<and> (\<exists>wi. net wi ((a # as) ! i) = Inr (sock_addr ((?new # news) ! i), sock_fault ((?new # news) ! i)))"
          using o Inr bf by (cases i) auto
      qed
      have "?OK (a # as) mln w"
        apply (rule exI[of _ w'], rule exI[of _ "?new # news"])
        unfolding step
        using r s ln t o' by (simp add: upt_shift del: upt_Suc)
      then show ?thesis ..
    next
      assume "?KO as ?m1 ?w1"
      then obtain w' k lerr wk news where
        r: "bind_loop net as ?m1 ?w1 =
              Some (w', Inl (errors_Join [Some lerr,
                      first_error (map (close_result wk) (listeners ?m1 @ [length (socks ?w1)..<length (socks ?w1) + k]))]))"
        and k: "k < length as"
        and s: "socks wk = socks ?w1 @ news" and ln: "length news = k" and o: "\<forall>i < k. sock_open (news ! i)"
        and tk: "trace wk = trace ?w1 @ map2 EvBind (take k as) [length (socks ?w1)..<length (socks ?w1) + k]"
        and f: "net wk (as ! k) = Inl lerr"
        and t: "trace w' = trace wk @ EvBindFailed (as ! k) # EvSignal
                # map EvLnClose (listeners ?m1 @ [length (socks ?w1)..<length (socks ?w1) + k])"
        and len: "length (socks w') = length (socks wk)"
        and st: "\<forall>h < length (socks wk).
                sock_addr (socks w' ! h) = sock_addr (socks wk ! h)
              \<and> sock_fault (socks w' ! h) = sock_fault (socks wk ! h)
              \<and> sock_open (socks w' ! h) =
                  (sock_open (socks wk ! h)
                   \<and> h \<notin> set (listeners ?m1 @ [length (socks ?w1)..<length (socks ?w1) + k]))"
        by blast
      have o': "\<forall>i < Suc k. sock_open ((?new # news) ! i)"
      proof (intro allI impI)
        fix i assume "i < Suc k"
        then show "sock_open ((?new # news) ! i)" using o by (cases i) auto
      qed
      have "?KO (a # as) mln w"
        apply (rule exI[of _ w'], rule exI[of _ "Suc k"], rule exI[of _ lerr], rule exI[of _ wk],
               rule exI[of _ "?new # news"])
        unfolding step
        using r k s ln o' tk f t len st
        by (simp add: upt_shift del: upt_Suc)
      then show ?thesis ..
    qed
  qed
qed

text \<open>
  C9. With no address, \<open>Listen\<close> returns at once with an error and no listener: the world
  is the one it was given, so no socket was bound and no goroutine started.
\<close>

theorem Listen_empty:
  "Listen net w [] = Some (w, None, Some (ErrorString ''no addresses to listen on''))"
  by (simp add: Listen_def errors_New_def)






section \<open>What holds at every moment\<close>

lemma not_parked_wake_task [simp]: "\<not> parked_task (wake_task t)"
  by (cases t) simp_all

lemma wake_caller_not_parked [simp]: "wake_caller c \<noteq> CParked"
  by (cases c) simp_all

lemma inv_ln_Accept: "inv s \<Longrightarrow> ln_Accept i b e s = Some s' \<Longrightarrow> inv s'"
  by (auto simp: inv_def ln_Accept_def nth_list_update split: if_splits)

lemma inv_task_select: "inv s \<Longrightarrow> task_select i ch s = Some s' \<Longrightarrow> inv s'"
  by (auto simp: inv_def task_select_def nth_list_update split: if_splits task.splits choice.splits)

lemma inv_task_loop: "inv s \<Longrightarrow> task_loop i s = Some s' \<Longrightarrow> inv s'"
  by (auto simp: inv_def task_loop_def nth_list_update split: if_splits task.splits)

lemma inv_task_quit: "inv s \<Longrightarrow> task_quit i s = Some s' \<Longrightarrow> inv s'"
  by (auto simp: inv_def task_quit_def nth_list_update split: if_splits task.splits)

lemma inv_Accept: "inv s \<Longrightarrow> Accept k ch s = Some s' \<Longrightarrow> inv s'"
  by (auto simp: inv_def Accept_def nth_list_update split: if_splits task.splits choice.splits)

lemma inv_close_cas: "inv s \<Longrightarrow> close_cas j s = Some s' \<Longrightarrow> inv s'"
  by (auto simp: inv_def close_cas_def nth_list_update split: if_splits)

lemma inv_close_signal: "inv s \<Longrightarrow> close_signal j s = Some s' \<Longrightarrow> inv s'"
  by (auto simp: inv_def close_signal_def nth_list_update split: if_splits)

lemma ln_Close_length:
  "ln_Close w ln = Some (cerr, w') \<Longrightarrow> length (socks w') = length (socks w)"
  by (auto simp: ln_Close_def split: if_splits)

lemma inv_close_next: "inv s \<Longrightarrow> close_next j s = Some s' \<Longrightarrow> inv s'"
  by (auto simp: inv_def close_next_def nth_list_update ln_Close_def
      split: if_splits closer.splits option.splits)

lemma inv_step: "inv s \<Longrightarrow> step a s = Some s' \<Longrightarrow> inv s'"
  by (cases a)
     (auto intro: inv_ln_Accept inv_task_select inv_task_loop inv_task_quit inv_Accept
        inv_close_cas inv_close_signal inv_close_next split: if_splits)

lemma inv_run: "inv s \<Longrightarrow> run acts s = Some s' \<Longrightarrow> inv s'"
  by (induction acts arbitrary: s) (auto split: option.splits dest: inv_step)

lemma Listen_ok:
  assumes "Listen net w addrs = Some (w0, Some l, None)"
  shows "addrs \<noteq> []
       \<and> l = \<lparr>listeners = [length (socks w)..<length (socks w) + length addrs],
               closeCh = False, closed = False\<rparr>
       \<and> (\<exists>news. socks w0 = socks w @ news \<and> length news = length addrs
            \<and> (\<forall>i < length addrs. sock_open (news ! i)
                  \<and> (\<exists>wi. net wi (addrs ! i) = Inr (sock_addr (news ! i), sock_fault (news ! i)))))
       \<and> trace w0 = trace w @ map2 EvBind addrs [length (socks w)..<length (socks w) + length addrs]
                      @ map EvGo [length (socks w)..<length (socks w) + length addrs]"
proof -
  let ?m0 = "\<lparr>listeners = [], closeCh = False, closed = False\<rparr>"
  have ne: "addrs \<noteq> []" using assms by (auto simp: Listen_def)
  have p: "\<not> closed ?m0" "\<not> closeCh ?m0" "distinct (listeners ?m0)"
    "\<forall>ln \<in> set (listeners ?m0). ln < length (socks w)" by simp_all
  from bind_loop_spec[OF p, of net addrs] show ?thesis
  proof (elim disjE exE conjE, goal_cases)
    case (1 w' news)
    have "Listen net w addrs =
        Some (acceptLoop (?m0\<lparr>listeners := listeners ?m0 @ [length (socks w)..<length (socks w) + length addrs]\<rparr>) w',
              Some (?m0\<lparr>listeners := listeners ?m0 @ [length (socks w)..<length (socks w) + length addrs]\<rparr>), None)"
      using ne 1(1) by (simp add: Listen_def)
    with assms have w0: "w0 = acceptLoop \<lparr>listeners = [length (socks w)..<length (socks w) + length addrs],
               closeCh = False, closed = False\<rparr> w'"
      and l: "l = \<lparr>listeners = [length (socks w)..<length (socks w) + length addrs],
               closeCh = False, closed = False\<rparr>" by auto
    have "socks w0 = socks w @ news" using w0 1(2) by (simp add: acceptLoop_def)
    moreover have "trace w0 = trace w @ map2 EvBind addrs [length (socks w)..<length (socks w) + length addrs]
                      @ map EvGo [length (socks w)..<length (socks w) + length addrs]"
      using w0 1(4) by (simp add: acceptLoop_def)
    ultimately show ?case using ne l 1(3) 1(5) by blast
  next
    case (2 w' k lerr wk news)
    have "Listen net w addrs = Some (w', None, errors_Join [Some lerr,
            first_error (map (close_result wk) (listeners ?m0 @ [length (socks w)..<length (socks w) + k]))])"
      using ne 2(1) by (simp add: Listen_def)
    with assms show ?case by simp
  qed
qed

lemma inv_start:
  assumes "Listen net w addrs = Some (w0, Some l, None)"
  shows "inv (start l w0 nc nk)"
proof -
  from Listen_ok[OF assms] obtain news where
    l: "l = \<lparr>listeners = [length (socks w)..<length (socks w) + length addrs],
               closeCh = False, closed = False\<rparr>"
    and s: "socks w0 = socks w @ news" "length news = length addrs" by blast
  show ?thesis unfolding inv_def start_def using l s by simp
qed

lemma inv_reach:
  assumes "Listen net w addrs = Some (w0, Some l, None)" and "run acts (start l w0 nc nk) = Some s"
  shows "inv s"
  using inv_run[OF inv_start[OF assms(1)] assms(2)] .

text \<open>No step changes the slice of sub-listeners or the address of a socket.\<close>

lemma ln_Close_addrs:
  "ln_Close w ln = Some (cerr, w') \<Longrightarrow> map sock_addr (socks w') = map sock_addr (socks w)"
  by (auto simp: ln_Close_def map_update list_update_same_conv split: if_splits)

lemma frame_step:
  assumes "step a s = Some s'"
  shows "listeners (lst s') = listeners (lst s)
       \<and> map sock_addr (socks (wld s')) = map sock_addr (socks (wld s))"
proof (cases a)
  case (ActCloseNext j)
  then show ?thesis using assms
    by (auto simp: close_next_def split: if_splits closer.splits option.splits dest: ln_Close_addrs)
qed (use assms in \<open>auto simp: ln_Accept_def task_select_def task_loop_def task_quit_def Accept_def
       close_cas_def close_signal_def split: if_splits task.splits choice.splits\<close>)

lemma frame_run:
  "run acts s = Some s' \<Longrightarrow>
     listeners (lst s') = listeners (lst s)
   \<and> map sock_addr (socks (wld s')) = map sock_addr (socks (wld s))"
proof (induction acts arbitrary: s)
  case Nil
  then show ?case by simp
next
  case (Cons a acts)
  then obtain s1 where a: "step a s = Some s1" and r: "run acts s1 = Some s'"
    by (auto split: option.splits)
  from frame_step[OF a] Cons.IH[OF r] show ?case by simp
qed

lemma addrs_loop_map:
  "\<forall>ln \<in> set lns. ln < length (socks w) \<Longrightarrow>
   addrs_loop lns w = Some (map (\<lambda>ln. map sock_addr (socks w) ! ln) lns)"
  by (induction lns) (auto simp: ln_Addr_def)

section \<open>The example run\<close>

lemmas step_defs = ln_Accept_def task_select_def task_loop_def task_quit_def Accept_def
  close_cas_def close_signal_def close_next_def ln_Close_def

lemma Listen_good_eval:
  "Listen net_strict w_empty addrs_good = Some (w_good, Some l_good, None)"
  by (simp add: Listen_def addrs_good_def w_empty_def net_strict_def lc_Listen_def
      acceptLoop_def w_good_def l_good_def)

lemma run_before_eval: "run acts_before (start l_good w_good 1 1) = Some s_shut"
  by (simp add: acts_before_def start_def l_good_def w_good_def s_shut_def step_defs)

lemma run_after_eval: "run acts_after s_shut = Some s_end"
  by (simp add: acts_after_def s_shut_def s_end_def step_defs)

lemma run_append:
  "run (xs @ ys) s = (case run xs s of None \<Rightarrow> None | Some s' \<Rightarrow> run ys s')"
  by (induction xs arbitrary: s) (auto split: option.splits)

lemma run_all_eval: "run (acts_before @ acts_after) (start l_good w_good 1 1) = Some s_end"
  using run_before_eval run_after_eval by (simp add: run_append)

section \<open>Addresses\<close>

text \<open>
  C10. A listener returned by \<open>Listen\<close> has at least one sub-listener, and so has it at
  every later moment, whatever the tasks, the callers of \<open>Accept\<close> and the callers of
  \<open>Close\<close> have done: \<open>Addr\<close> finds its first sub-listener and returns an address, it
  does not panic.
\<close>

theorem Addr_never_panics:
  assumes "Listen net w addrs = Some (w0, Some l, None)"
    and "run acts (start l w0 nc nk) = Some s"
  shows "listeners l \<noteq> [] \<and> listeners (lst s) \<noteq> [] \<and> (\<exists>a. Addr (lst s) (wld s) = Some a)"
proof -
  from Listen_ok[OF assms(1)] have ne: "addrs \<noteq> []"
    and l: "l = \<lparr>listeners = [length (socks w)..<length (socks w) + length addrs],
               closeCh = False, closed = False\<rparr>" by blast+
  have l0: "listeners l \<noteq> []" using ne l by simp
  from frame_run[OF assms(2)] have f: "listeners (lst s) = listeners l"
    by (simp add: start_def)
  from inv_reach[OF assms] have v: "\<forall>ln \<in> set (listeners (lst s)). ln < length (socks (wld s))"
    by (simp add: inv_def)
  obtain ln lns where c: "listeners (lst s) = ln # lns" using l0 f by (metis neq_Nil_conv)
  then have "ln < length (socks (wld s))" using v by simp
  then have "Addr (lst s) (wld s) = Some (sock_addr (socks (wld s) ! ln))"
    using c by (simp add: Addr_def ln_Addr_def)
  then show ?thesis using l0 f by simp
qed

theorem Addr_never_panics_witness:
  "Listen net_strict w_empty addrs_good = Some (w_good, Some l_good, None)
   \<and> run (acts_before @ acts_after) (start l_good w_good 1 1) = Some s_end
   \<and> closed (lst s_end)
   \<and> listeners (lst s_end) \<noteq> []
   \<and> Addr (lst s_end) (wld s_end) = Some ''127.0.0.1:8080''"
proof -
  from Addr_never_panics[OF Listen_good_eval run_all_eval]
  have "listeners (lst s_end) \<noteq> []" by blast
  moreover have "Addr (lst s_end) (wld s_end) = Some ''127.0.0.1:8080''"
    by (simp add: Addr_def ln_Addr_def s_end_def)
  moreover have "closed (lst s_end)" by (simp add: s_end_def)
  ultimately show ?thesis using Listen_good_eval run_all_eval by blast
qed

text \<open>
  C8. After a successful \<open>Listen\<close> there is a list \<open>bound\<close> of addresses, one per
  address given and in the same order, each the address the platform bound for the
  address given at that place (the trace shows address \<open>i\<close> bound as sub-listener
  \<open>i\<close>). At every later moment, also after \<open>Close\<close>, \<open>Addrs\<close> returns \<open>bound\<close> and
  \<open>Addr\<close> its first element. On a platform that binds an address as asked, \<open>Addrs\<close>
  returns the addresses given.
\<close>

theorem Addrs_input_order:
  assumes "Listen net w addrs = Some (w0, Some l, None)"
    and "run acts (start l w0 nc nk) = Some s"
  shows "\<exists>bound. length bound = length addrs
       \<and> (\<forall>i < length addrs. \<exists>wi fault. net wi (addrs ! i) = Inr (bound ! i, fault))
       \<and> trace w0 = trace w @ map2 EvBind addrs (listeners l) @ map EvGo (listeners l)
       \<and> listeners (lst s) = listeners l
       \<and> (\<forall>i < length addrs. ln_Addr (wld s) (listeners l ! i) = Some (bound ! i))
       \<and> Addrs (lst s) (wld s) = Some bound
       \<and> Addr (lst s) (wld s) = Some (bound ! 0)
       \<and> ((\<forall>wi a b f. net wi a = Inr (b, f) \<longrightarrow> b = a) \<longrightarrow> Addrs (lst s) (wld s) = Some addrs)"
proof -
  let ?n = "length (socks w)"
  from Listen_ok[OF assms(1)] obtain news where ne: "addrs \<noteq> []"
    and l: "l = \<lparr>listeners = [?n..<?n + length addrs], closeCh = False, closed = False\<rparr>"
    and s0: "socks w0 = socks w @ news" and len: "length news = length addrs"
    and pl: "\<forall>i < length addrs. sock_open (news ! i)
                  \<and> (\<exists>wi. net wi (addrs ! i) = Inr (sock_addr (news ! i), sock_fault (news ! i)))"
    and t: "trace w0 = trace w @ map2 EvBind addrs [?n..<?n + length addrs]
                      @ map EvGo [?n..<?n + length addrs]"
    by blast
  let ?bound = "map sock_addr news"
  from frame_run[OF assms(2)] have f: "listeners (lst s) = listeners l"
    and a: "map sock_addr (socks (wld s)) = map sock_addr (socks w0)"
    by (simp_all add: start_def)
  from inv_reach[OF assms] have v: "\<forall>ln \<in> set (listeners (lst s)). ln < length (socks (wld s))"
    by (simp add: inv_def)
  have lenw: "length (socks (wld s)) = ?n + length addrs"
    using a s0 len by (metis length_append length_map)
  have nth: "\<forall>i < length addrs. map sock_addr (socks (wld s)) ! (?n + i) = ?bound ! i"
    using a s0 len by (simp add: nth_append)
  have b1: "length ?bound = length addrs" using len by simp
  have b2: "\<forall>i < length addrs. \<exists>wi fault. net wi (addrs ! i) = Inr (?bound ! i, fault)"
    using pl len by (metis nth_map)
  have b3: "trace w0 = trace w @ map2 EvBind addrs (listeners l) @ map EvGo (listeners l)"
    using t l by simp
  have b4: "\<forall>i < length addrs. ln_Addr (wld s) (listeners l ! i) = Some (?bound ! i)"
  proof (intro allI impI)
    fix i assume i: "i < length addrs"
    then have "listeners l ! i = ?n + i" using l by simp
    moreover have "?n + i < length (socks (wld s))" using lenw i by simp
    moreover have "sock_addr (socks (wld s) ! (?n + i)) = ?bound ! i"
      using nth i lenw by (metis calculation(2) nth_map)
    ultimately show "ln_Addr (wld s) (listeners l ! i) = Some (?bound ! i)"
      by (simp add: ln_Addr_def)
  qed
  have "Addrs (lst s) (wld s) = Some (map (\<lambda>ln. map sock_addr (socks (wld s)) ! ln) (listeners l))"
    using addrs_loop_map[OF v] f by (simp add: Addrs_def)
  also have "map (\<lambda>ln. map sock_addr (socks (wld s)) ! ln) (listeners l) = ?bound"
    using nth l len by (auto intro!: nth_equalityI)
  finally have b5: "Addrs (lst s) (wld s) = Some ?bound" .
  have "listeners l = ?n # [Suc ?n..<?n + length addrs]"
    using ne l by (simp add: upt_conv_Cons)
  then have "Addr (lst s) (wld s) = ln_Addr (wld s) (listeners l ! 0)"
    using f by (simp add: Addr_def)
  then have b6: "Addr (lst s) (wld s) = Some (?bound ! 0)" using b4 ne by simp
  have b7: "(\<forall>wi a b f. net wi a = Inr (b, f) \<longrightarrow> b = a) \<longrightarrow> Addrs (lst s) (wld s) = Some addrs"
  proof
    assume vb: "\<forall>wi a b f. net wi a = Inr (b, f) \<longrightarrow> b = a"
    have "?bound = addrs"
    proof (rule nth_equalityI)
      show "length ?bound = length addrs" by (rule b1)
    next
      fix i assume "i < length ?bound"
      then have "i < length addrs" using b1 by simp
      with b2 vb show "?bound ! i = addrs ! i" by blast
    qed
    with b5 show "Addrs (lst s) (wld s) = Some addrs" by simp
  qed
  show ?thesis
    using b1 b2 b3 f b4 b5 b6 b7 by blast
qed

theorem Addrs_input_order_witness:
  "Listen net_strict w_empty addrs_good = Some (w_good, Some l_good, None)
   \<and> run (acts_before @ acts_after) (start l_good w_good 1 1) = Some s_end
   \<and> closed (lst s_end)
   \<and> Addrs (lst s_end) (wld s_end) = Some addrs_good
   \<and> Addr (lst s_end) (wld s_end) = Some (addrs_good ! 0)"
proof -
  from Addrs_input_order[OF Listen_good_eval run_all_eval] obtain bound where
    b: "Addrs (lst s_end) (wld s_end) = Some bound" "Addr (lst s_end) (wld s_end) = Some (bound ! 0)"
    by blast
  have "Addrs (lst s_end) (wld s_end) = Some addrs_good"
    by (simp add: Addrs_def ln_Addr_def s_end_def addrs_good_def)
  with b have "bound = addrs_good" by simp
  with b have "Addrs (lst s_end) (wld s_end) = Some addrs_good"
    "Addr (lst s_end) (wld s_end) = Some (addrs_good ! 0)" by simp_all
  moreover have "closed (lst s_end)" by (simp add: s_end_def)
  ultimately show ?thesis using Listen_good_eval run_all_eval by blast
qed

section \<open>Where the connections are\<close>



lemma held_wake_task [simp]: "held (wake_task t) = held t"
  by (cases t) simp_all

lemma holders_wake:
  "tasks s' = map wake_task (tasks s) \<Longrightarrow> holders s' c = holders s c"
  by (simp add: holders_def filter_map comp_def)












section \<open>After the shutdown signal\<close>

lemmas op_defs = ln_Accept_def task_select_def task_loop_def task_quit_def Accept_def
  close_cas_def close_signal_def close_next_def

lemma shut_step:
  assumes "inv s" and "closeCh (lst s)" and "step a s = Some s'"
  shows "delivered s' = delivered s \<and> closeCh (lst s')"
  using assms
  by (cases a)
     (auto simp: inv_def op_defs split: if_splits task.splits choice.splits closer.splits option.splits)

lemma mono_step:
  assumes "step a s = Some s'"
  shows "set (conn_closed s) \<subseteq> set (conn_closed s') \<and> length (tasks s') = length (tasks s)
       \<and> length (callers s') = length (callers s)"
  using assms
  by (cases a)
     (auto simp: op_defs split: if_splits task.splits choice.splits closer.splits option.splits)




lemma shut_run:
  assumes "inv s" and "closeCh (lst s)" and "run acts s = Some s'"
  shows "delivered s' = delivered s \<and> closeCh (lst s') \<and> length (tasks s') = length (tasks s)"
  using assms
proof (induction acts arbitrary: s)
  case Nil
  then show ?case by simp
next
  case (Cons a acts)
  then obtain s1 where a: "step a s = Some s1" and r: "run acts s1 = Some s'"
    by (auto split: option.splits)
  from shut_step[OF Cons.prems(1,2) a] inv_step[OF Cons.prems(1) a] mono_step[OF a]
    Cons.IH[OF _ _ r]
  show ?case by simp
qed





lemma Accept_after_shutdown:
  assumes "inv s" and "closeCh (lst s)" and "step (ActAccept k ch) s = Some s'"
  shows "ch = OnCloseCh \<and> callers s' ! k = CRet (None, Some ErrClosed) \<and> delivered s' = delivered s"
  using assms
  by (cases ch) (auto simp: inv_def Accept_def split: if_splits task.splits)

lemma Accept_enabled_after_shutdown:
  assumes "inv s" and "closeCh (lst s)" and "k < length (callers s)"
  shows "\<exists>s'. step (ActAccept k OnCloseCh) s = Some s'"
  using assms by (auto simp: inv_def Accept_def)

lemma signal_wakes:
  assumes "step (ActCloseSignal j) s = Some s'" and "inv s"
  shows "closeCh (lst s') \<and> \<not> closeCh (lst s)
       \<and> (\<forall>k < length (callers s). callers s ! k = CParked \<longrightarrow> callers s' ! k = CRet (None, Some ErrClosed))"
  using assms by (auto simp: inv_def close_signal_def split: if_splits)

text \<open>
  C3. At every moment of every run: when \<open>closeCh\<close> is closed, no caller of \<open>Accept\<close> is
  blocked, a call of \<open>Accept\<close> can complete at once, every call that completes took the
  branch of \<open>closeCh\<close> and returned no connection and \<open>net.ErrClosed\<close>, and the channel
  stays closed whatever happens next. And the step that closes the channel makes every
  caller blocked in \<open>Accept\<close> at that moment return no connection and \<open>net.ErrClosed\<close>.
\<close>

theorem Accept_after_shutdown_returns_closed:
  assumes "Listen net w addrs = Some (w0, Some l, None)"
    and "run acts (start l w0 nc nk) = Some s"
  shows "(closeCh (lst s) \<longrightarrow>
            (\<forall>k < length (callers s). callers s ! k \<noteq> CParked
               \<and> (\<exists>s'. step (ActAccept k OnCloseCh) s = Some s'))
          \<and> (\<forall>k ch s'. step (ActAccept k ch) s = Some s' \<longrightarrow>
                ch = OnCloseCh \<and> callers s' ! k = CRet (None, Some ErrClosed)
              \<and> delivered s' = delivered s)
          \<and> (\<forall>more s'. run more s = Some s' \<longrightarrow> closeCh (lst s')))
       \<and> (\<forall>j s'. step (ActCloseSignal j) s = Some s' \<longrightarrow>
             closeCh (lst s') \<and> \<not> closeCh (lst s)
           \<and> (\<forall>k < length (callers s). callers s ! k = CParked \<longrightarrow>
                 callers s' ! k = CRet (None, Some ErrClosed)))"
proof -
  have i: "inv s" by (rule inv_reach[OF assms])
  have a: "closeCh (lst s) \<longrightarrow>
            (\<forall>k < length (callers s). callers s ! k \<noteq> CParked
               \<and> (\<exists>s'. step (ActAccept k OnCloseCh) s = Some s'))"
    using i Accept_enabled_after_shutdown[OF i] by (auto simp: inv_def)
  have b: "closeCh (lst s) \<longrightarrow> (\<forall>k ch s'. step (ActAccept k ch) s = Some s' \<longrightarrow>
                ch = OnCloseCh \<and> callers s' ! k = CRet (None, Some ErrClosed)
              \<and> delivered s' = delivered s)"
    using Accept_after_shutdown[OF i] by blast
  have c: "closeCh (lst s) \<longrightarrow> (\<forall>more s'. run more s = Some s' \<longrightarrow> closeCh (lst s'))"
    using shut_run[OF i] by blast
  have d: "\<forall>j s'. step (ActCloseSignal j) s = Some s' \<longrightarrow>
             closeCh (lst s') \<and> \<not> closeCh (lst s)
           \<and> (\<forall>k < length (callers s). callers s ! k = CParked \<longrightarrow>
                 callers s' ! k = CRet (None, Some ErrClosed))"
    using signal_wakes[OF _ i] by blast
  from a b c d show ?thesis by blast
qed

lemma run_parked_eval: "run acts_parked (start l_good w_good 1 1) = Some s_parked"
  by (simp add: acts_parked_def start_def l_good_def s_parked_def step_defs)

theorem Accept_after_shutdown_returns_closed_witness:
  "Listen net_strict w_empty addrs_good = Some (w_good, Some l_good, None)
   \<and> run acts_parked (start l_good w_good 1 1) = Some s_parked
   \<and> callers s_parked ! 0 = CParked
   \<and> (\<exists>s'. step (ActCloseSignal 0) s_parked = Some s' \<and> closeCh (lst s')
          \<and> callers s' ! 0 = CRet (None, Some ErrClosed))
   \<and> run (acts_before @ acts_after) (start l_good w_good 1 1) = Some s_end
   \<and> closeCh (lst s_end)
   \<and> (\<exists>s'. step (ActAccept 0 OnCloseCh) s_end = Some s' \<and> callers s' ! 0 = CRet (None, Some ErrClosed))"
proof -
  have p: "callers s_parked ! 0 = CParked" "0 < length (callers s_parked)" by (simp_all add: s_parked_def)
  obtain s1 where s1: "step (ActCloseSignal 0) s_parked = Some s1"
    by (simp add: s_parked_def close_signal_def)
  from Accept_after_shutdown_returns_closed[OF Listen_good_eval run_parked_eval] s1 p
  have w1: "closeCh (lst s1) \<and> callers s1 ! 0 = CRet (None, Some ErrClosed)" by blast
  have c: "closeCh (lst s_end)" "0 < length (callers s_end)" by (simp_all add: s_end_def)
  from Accept_after_shutdown_returns_closed[OF Listen_good_eval run_all_eval] c
  obtain s2 where s2: "step (ActAccept 0 OnCloseCh) s_end = Some s2" by blast
  from Accept_after_shutdown_returns_closed[OF Listen_good_eval run_all_eval] c s2
  have w2: "callers s2 ! 0 = CRet (None, Some ErrClosed)" by blast
  from Listen_good_eval run_parked_eval p(1) s1 w1 run_all_eval c(1) s2 w2
  show ?thesis by blast
qed

section \<open>A failing sub-listener\<close>

lemma delivered_from_append:
  "delivered s' = delivered s @ [(i', p)] \<Longrightarrow>
   delivered_from i s' = delivered_from i s @ (if i' = i then [p] else [])"
  by (simp add: delivered_from_def)

lemma delivered_from_same:
  "delivered s' = delivered s \<Longrightarrow> delivered_from i s' = delivered_from i s"
  by (simp add: delivered_from_def)

text \<open>What each step of a task or of \<open>Accept\<close> does, spelled out.\<close>

lemma task_select_cases:
  assumes "task_select i ch s = Some s'"
  obtains (send) p k where "tasks s ! i = TSelect p" "i < length (tasks s)" "ch = OnConns k"
      "k < length (callers s)" "callers s ! k = CParked"
      "tasks s' = (tasks s)[i := TSent (snd p)]" "callers s' = (callers s)[k := CRet p]"
      "delivered s' = delivered s @ [(i, p)]" "lst s' = lst s"
      "conn_closed s' = conn_closed s" "next_conn s' = next_conn s"
    | (shut) p where "tasks s ! i = TSelect p" "i < length (tasks s)" "ch = OnCloseCh"
      "closeCh (lst s)" "tasks s' = (tasks s)[i := TClosing (fst p)]" "callers s' = callers s"
      "delivered s' = delivered s" "lst s' = lst s"
      "conn_closed s' = conn_closed s" "next_conn s' = next_conn s"
    | (park) p where "tasks s ! i = TSelect p" "i < length (tasks s)" "ch = Park"
      "\<not> closeCh (lst s)" "tasks s' = (tasks s)[i := TParked p]" "callers s' = callers s"
      "delivered s' = delivered s" "lst s' = lst s"
      "conn_closed s' = conn_closed s" "next_conn s' = next_conn s"
proof -
  from assms obtain p where p: "tasks s ! i = TSelect p" "i < length (tasks s)"
    by (auto simp: task_select_def split: if_splits task.splits)
  show thesis
  proof (cases ch)
    case (OnConns k)
    with assms p show thesis
      by (intro send[of p k]) (auto simp: task_select_def split: if_splits)
  next
    case OnCloseCh
    with assms p show thesis
      by (intro shut[of p]) (auto simp: task_select_def split: if_splits)
  next
    case Park
    with assms p show thesis
      by (intro park[of p]) (auto simp: task_select_def split: if_splits)
  qed
qed

lemma Accept_cases:
  assumes "Accept k ch s = Some s'"
  obtains (recv) p i where "tasks s ! i = TParked p" "i < length (tasks s)" "ch = OnConns i"
      "k < length (callers s)" "callers s ! k \<noteq> CParked"
      "tasks s' = (tasks s)[i := TSent (snd p)]" "callers s' = (callers s)[k := CRet p]"
      "delivered s' = delivered s @ [(i, p)]" "lst s' = lst s"
      "conn_closed s' = conn_closed s" "next_conn s' = next_conn s"
    | (shut) "ch = OnCloseCh" "closeCh (lst s)" "k < length (callers s)"
      "tasks s' = tasks s" "callers s' = (callers s)[k := CRet (None, Some ErrClosed)]"
      "delivered s' = delivered s" "lst s' = lst s"
      "conn_closed s' = conn_closed s" "next_conn s' = next_conn s"
    | (park) "ch = Park" "\<not> closeCh (lst s)" "k < length (callers s)"
      "tasks s' = tasks s" "callers s' = (callers s)[k := CParked]"
      "delivered s' = delivered s" "lst s' = lst s"
      "conn_closed s' = conn_closed s" "next_conn s' = next_conn s"
proof -
  from assms have k: "k < length (callers s)" "callers s ! k \<noteq> CParked"
    by (auto simp: Accept_def split: if_splits)
  show thesis
  proof (cases ch)
    case (OnConns i)
    with assms k obtain p where "tasks s ! i = TParked p" "i < length (tasks s)"
      by (auto simp: Accept_def split: if_splits task.splits)
    with assms k OnConns show thesis
      by (intro recv[of i p]) (auto simp: Accept_def split: if_splits)
  next
    case OnCloseCh
    with assms k show thesis
      by (intro shut) (auto simp: Accept_def split: if_splits)
  next
    case Park
    with assms k show thesis
      by (intro park) (auto simp: Accept_def split: if_splits)
  qed
qed

lemma phase_frame:
  assumes "after_accept i p d0 s"
    and "length (tasks s') = length (tasks s)" and "tasks s' ! i = tasks s ! i"
    and "delivered s' = delivered s" and "closeCh (lst s) \<Longrightarrow> closeCh (lst s')"
  shows "after_accept i p d0 s'"
  using assms delivered_from_same[OF assms(4), of i] unfolding after_accept_def by auto

lemma phase_ln_Accept:
  assumes "after_accept i p d0 s" and "ln_Accept i' b e s = Some s'"
  shows "after_accept i p d0 s'"
proof -
  from assms(2) have i': "i' < length (tasks s)" "tasks s ! i' = TAccept"
    and t: "tasks s' = (tasks s)[i' := TSelect (if b then Some (next_conn s) else None, e)]"
    and o: "delivered s' = delivered s" "lst s' = lst s"
    by (auto simp: ln_Accept_def split: if_splits)
  have "i' \<noteq> i" using assms(1) i' by (auto simp: after_accept_def)
  then show ?thesis using phase_frame[OF assms(1), of s'] t o by simp
qed

lemma phase_task_select:
  assumes "after_accept i p d0 s" and "task_select i' ch s = Some s'"
  shows "after_accept i p d0 s'"
proof (cases "i' = i")
  case False
  from assms(2) show ?thesis
  proof (cases rule: task_select_cases)
    case (send q k)
    from delivered_from_append[OF send(8), of i] False
    have "delivered_from i s' = delivered_from i s" by simp
    then show ?thesis using assms(1) False send(6,9) unfolding after_accept_def by auto
  next
    case (shut q)
    then show ?thesis using phase_frame[OF assms(1), of s'] False by simp
  next
    case (park q)
    then show ?thesis using phase_frame[OF assms(1), of s'] False by simp
  qed
next
  case True
  from assms(2) show ?thesis
  proof (cases rule: task_select_cases)
    case (send q k)
    then have q: "q = p" "delivered_from i s = d0"
      using assms(1) True by (auto simp: after_accept_def)
    from delivered_from_append[OF send(8), of i] True q
    have "delivered_from i s' = d0 @ [p]" by simp
    then show ?thesis using send(2,6) True q unfolding after_accept_def by simp
  next
    case (shut q)
    then have q: "q = p" "delivered_from i s = d0"
      using assms(1) True by (auto simp: after_accept_def)
    have "delivered_from i s' = d0" using delivered_from_same[OF shut(7), of i] q by simp
    then show ?thesis using shut(2,4,5,8) True q unfolding after_accept_def by simp
  next
    case (park q)
    then have q: "q = p" "delivered_from i s = d0"
      using assms(1) True by (auto simp: after_accept_def)
    have "delivered_from i s' = d0" using delivered_from_same[OF park(7), of i] q by simp
    then show ?thesis using park(2,5) True q unfolding after_accept_def by simp
  qed
qed

lemma phase_task_loop:
  assumes "snd p \<noteq> None" and "after_accept i p d0 s" and "task_loop i' s = Some s'"
  shows "after_accept i p d0 s'"
proof -
  from assms(3) obtain err where i': "i' < length (tasks s)" "tasks s ! i' = TSent err"
    and t: "tasks s' = (tasks s)[i' := (if err \<noteq> None then TDone else TAccept)]"
    and o: "delivered s' = delivered s" "lst s' = lst s"
    by (auto simp: task_loop_def split: if_splits task.splits)
  show ?thesis
  proof (cases "i' = i")
    case False
    then show ?thesis using phase_frame[OF assms(2), of s'] t o by simp
  next
    case True
    then have "err = snd p" "delivered_from i s = d0 @ [p]"
      using assms(2) i' by (auto simp: after_accept_def)
    moreover have "delivered_from i s' = delivered_from i s"
      by (rule delivered_from_same[OF o(1)])
    ultimately show ?thesis using assms(1) t i' True unfolding after_accept_def by simp
  qed
qed

lemma phase_task_quit:
  assumes "after_accept i p d0 s" and "task_quit i' s = Some s'"
  shows "after_accept i p d0 s'"
proof -
  from assms(2) obtain c where i': "i' < length (tasks s)" "tasks s ! i' = TClosing c"
    and t: "tasks s' = (tasks s)[i' := TDone]"
    and o: "delivered s' = delivered s" "lst s' = lst s"
    by (auto simp: task_quit_def split: if_splits task.splits)
  show ?thesis
  proof (cases "i' = i")
    case False
    then show ?thesis using phase_frame[OF assms(1), of s'] t o by simp
  next
    case True
    then have "delivered_from i s = d0" "closeCh (lst s)"
      using assms(1) i' by (auto simp: after_accept_def)
    moreover have "delivered_from i s' = delivered_from i s"
      by (rule delivered_from_same[OF o(1)])
    ultimately show ?thesis using t i' o True unfolding after_accept_def by simp
  qed
qed

lemma phase_Accept:
  assumes "after_accept i p d0 s" and "Accept k ch s = Some s'"
  shows "after_accept i p d0 s'"
  using assms(2)
proof (cases rule: Accept_cases)
  case (recv q i')
  show ?thesis
  proof (cases "i' = i")
    case False
    from delivered_from_append[OF recv(8), of i] False
    have "delivered_from i s' = delivered_from i s" by simp
    then show ?thesis using assms(1) False recv(6,9) unfolding after_accept_def by auto
  next
    case True
    then have q: "q = p" "delivered_from i s = d0"
      using assms(1) recv(1) by (auto simp: after_accept_def)
    from delivered_from_append[OF recv(8), of i] True q
    have "delivered_from i s' = d0 @ [p]" by simp
    then show ?thesis using recv(2,6) True q unfolding after_accept_def by simp
  qed
next
  case shut
  then show ?thesis using phase_frame[OF assms(1), of s'] by simp
next
  case park
  then show ?thesis using phase_frame[OF assms(1), of s'] by simp
qed

lemma phase_close_cas:
  assumes "after_accept i p d0 s" and "close_cas j s = Some s'"
  shows "after_accept i p d0 s'"
proof -
  from assms(2) have "tasks s' = tasks s" "delivered s' = delivered s" "closeCh (lst s') = closeCh (lst s)"
    by (auto simp: close_cas_def split: if_splits)
  then show ?thesis using phase_frame[OF assms(1), of s'] by simp
qed

lemma phase_close_next:
  assumes "after_accept i p d0 s" and "close_next j s = Some s'"
  shows "after_accept i p d0 s'"
proof -
  from assms(2) have "tasks s' = tasks s" "delivered s' = delivered s" "lst s' = lst s"
    by (auto simp: close_next_def split: if_splits closer.splits option.splits)
  then show ?thesis using phase_frame[OF assms(1), of s'] by simp
qed

lemma phase_close_signal:
  assumes "after_accept i p d0 s" and "close_signal j s = Some s'"
  shows "after_accept i p d0 s'"
proof (cases "closeCh (lst s)")
  case True
  with assms(2) have "tasks s' = tasks s" "delivered s' = delivered s" "lst s' = lst s"
    by (auto simp: close_signal_def split: if_splits)
  then show ?thesis using phase_frame[OF assms(1), of s'] by simp
next
  case False
  with assms(2) have t: "tasks s' = map wake_task (tasks s)" and d: "delivered s' = delivered s"
    and c: "closeCh (lst s')"
    by (auto simp: close_signal_def split: if_splits)
  have i: "i < length (tasks s)" using assms(1) by (simp add: after_accept_def)
  have df: "delivered_from i s' = delivered_from i s" by (rule delivered_from_same[OF d])
  have ti: "tasks s' ! i = wake_task (tasks s ! i)" using t i by simp
  show ?thesis
    using assms(1) i df ti c t unfolding after_accept_def by auto
qed

lemma phase_step:
  assumes "snd p \<noteq> None" and "after_accept i p d0 s" and "step a s = Some s'"
  shows "after_accept i p d0 s'"
proof (cases a)
  case (ActTaskLoop i')
  then show ?thesis using assms phase_task_loop[OF assms(1,2), of i' s'] by (simp split: if_splits)
qed (use assms(2,3) in \<open>auto intro: phase_ln_Accept phase_task_select phase_task_quit phase_Accept
        phase_close_cas phase_close_signal phase_close_next split: if_splits\<close>)

lemma phase_run:
  assumes "snd p \<noteq> None" and "after_accept i p d0 s" and "run acts s = Some s'"
  shows "after_accept i p d0 s'"
  using assms(2,3)
proof (induction acts arbitrary: s)
  case Nil
  then show ?case by simp
next
  case (Cons a acts)
  then obtain s1 where a: "step a s = Some s1" and r: "run acts s1 = Some s'"
    by (auto split: option.splits)
  from Cons.IH[OF phase_step[OF assms(1) Cons.prems(1) a] r] show ?case .
qed

lemma errors_seen_same:
  "delivered s' = delivered s \<Longrightarrow> errors_seen i s' = errors_seen i s"
  by (simp add: errors_seen_def delivered_from_def)

lemma errors_seen_append:
  "delivered s' = delivered s @ [(i', p)] \<Longrightarrow>
   errors_seen i s' = errors_seen i s + (if i' = i \<and> snd p \<noteq> None then 1 else 0)"
  by (simp add: errors_seen_def delivered_from_def)

lemma once_frame:
  assumes "at_most_once i s"
    and "length (tasks s') = length (tasks s)" and "delivered s' = delivered s"
    and "tasks s ! i = TDone \<Longrightarrow> tasks s' ! i = TDone"
    and "\<And>e. tasks s ! i = TSent (Some e) \<Longrightarrow> tasks s' ! i = TSent (Some e) \<or> tasks s' ! i = TDone"
  shows "at_most_once i s'"
  using assms errors_seen_same[OF assms(3), of i] unfolding at_most_once_def by auto

lemma once_handoff:
  assumes "at_most_once i s" and "i' < length (tasks s)"
    and "tasks s ! i' = TSelect p \<or> tasks s ! i' = TParked p"
    and "tasks s' = (tasks s)[i' := TSent (snd p)]"
    and "delivered s' = delivered s @ [(i', p)]"
  shows "at_most_once i s'"
proof (cases "i' = i")
  case False
  from errors_seen_append[OF assms(5), of i] False have "errors_seen i s' = errors_seen i s" by simp
  then show ?thesis using assms(1,4) False unfolding at_most_once_def by auto
next
  case True
  then have z: "errors_seen i s = 0" using assms(1,3) unfolding at_most_once_def by auto
  from errors_seen_append[OF assms(5), of i] True z
  have "errors_seen i s' = (if snd p \<noteq> None then 1 else 0)" by simp
  then show ?thesis using assms(2,4) True unfolding at_most_once_def by auto
qed

lemma once_step:
  assumes "at_most_once i s" and "step a s = Some s'"
  shows "at_most_once i s'"
proof (cases a)
  case (ActLnAccept i' b e)
  with assms(2) have i': "i' < length (tasks s)" "tasks s ! i' = TAccept"
    and t: "tasks s' = (tasks s)[i' := TSelect (if b then Some (next_conn s) else None, e)]"
    and o: "delivered s' = delivered s"
    by (auto simp: ln_Accept_def split: if_splits)
  show ?thesis
    by (rule once_frame[OF assms(1)]) (use i' t o in \<open>auto simp: nth_list_update\<close>)
next
  case (ActTaskSelect i' ch)
  with assms(2) have ts: "task_select i' ch s = Some s'" by (simp split: if_splits)
  then show ?thesis
  proof (cases rule: task_select_cases)
    case (send q k)
    show ?thesis by (rule once_handoff[OF assms(1) send(2) _ send(6,8)]) (simp add: send(1))
  next
    case (shut q)
    show ?thesis
      by (rule once_frame[OF assms(1)]) (use shut in \<open>auto simp: nth_list_update\<close>)
  next
    case (park q)
    show ?thesis
      by (rule once_frame[OF assms(1)]) (use park in \<open>auto simp: nth_list_update\<close>)
  qed
next
  case (ActTaskLoop i')
  with assms(2) obtain err where i': "i' < length (tasks s)" "tasks s ! i' = TSent err"
    and t: "tasks s' = (tasks s)[i' := (if err \<noteq> None then TDone else TAccept)]"
    and o: "delivered s' = delivered s"
    by (auto simp: task_loop_def split: if_splits task.splits)
  show ?thesis
    by (rule once_frame[OF assms(1)]) (use i' t o in \<open>auto simp: nth_list_update\<close>)
next
  case (ActTaskQuit i')
  with assms(2) obtain c where i': "i' < length (tasks s)" "tasks s ! i' = TClosing c"
    and t: "tasks s' = (tasks s)[i' := TDone]"
    and o: "delivered s' = delivered s"
    by (auto simp: task_quit_def split: if_splits task.splits)
  show ?thesis
    by (rule once_frame[OF assms(1)]) (use i' t o in \<open>auto simp: nth_list_update\<close>)
next
  case (ActAccept k ch)
  with assms(2) have ac: "Accept k ch s = Some s'" by (simp split: if_splits)
  then show ?thesis
  proof (cases rule: Accept_cases)
    case (recv q i')
    show ?thesis by (rule once_handoff[OF assms(1) recv(2) _ recv(6,8)]) (simp add: recv(1))
  next
    case shut
    show ?thesis by (rule once_frame[OF assms(1)]) (use shut in auto)
  next
    case park
    show ?thesis by (rule once_frame[OF assms(1)]) (use park in auto)
  qed
next
  case (ActCloseCas j)
  with assms(2) have "tasks s' = tasks s" "delivered s' = delivered s"
    by (auto simp: close_cas_def split: if_splits)
  then show ?thesis by (intro once_frame[OF assms(1)]) auto
next
  case (ActCloseSignal j)
  with assms(2) have t: "tasks s' = tasks s \<or> tasks s' = map wake_task (tasks s)"
    and d: "delivered s' = delivered s"
    by (auto simp: close_signal_def split: if_splits)
  have e: "errors_seen i s' = errors_seen i s" by (rule errors_seen_same[OF d])
  from t show ?thesis
  proof
    assume "tasks s' = tasks s"
    then show ?thesis using assms(1) e unfolding at_most_once_def by simp
  next
    assume "tasks s' = map wake_task (tasks s)"
    then show ?thesis using assms(1) e unfolding at_most_once_def by auto
  qed
next
  case (ActCloseNext j)
  with assms(2) have "tasks s' = tasks s" "delivered s' = delivered s"
    by (auto simp: close_next_def split: if_splits closer.splits option.splits)
  then show ?thesis by (intro once_frame[OF assms(1)]) auto
qed

lemma once_run:
  assumes "at_most_once i s" and "run acts s = Some s'"
  shows "at_most_once i s'"
  using assms
proof (induction acts arbitrary: s)
  case Nil
  then show ?case by simp
next
  case (Cons a acts)
  then obtain s1 where a: "step a s = Some s1" and r: "run acts s1 = Some s'"
    by (auto split: option.splits)
  from Cons.IH[OF once_step[OF Cons.prems(1) a] r] show ?case .
qed

lemma once_start: "at_most_once i (start l w nc nk)"
  by (simp add: at_most_once_def errors_seen_def delivered_from_def start_def)

lemma others_unaffected:
  assumes "step a s = Some s'" and "task_of a = Some i" and "j \<noteq> i"
  shows "tasks s' ! j = tasks s ! j"
proof (cases a)
  case (ActTaskSelect i' ch)
  with assms have ts: "task_select i ch s = Some s'" by (simp split: if_splits)
  then show ?thesis by (cases rule: task_select_cases) (use assms(3) in auto)
qed (use assms in \<open>auto simp: ln_Accept_def task_loop_def task_quit_def split: if_splits task.splits\<close>)

lemma can_accept:
  assumes "\<not> panicked s" and "j < length (tasks s)" and "tasks s ! j = TAccept"
  shows "\<exists>s'. step (ActLnAccept j b e) s = Some s'"
  using assms by (simp add: ln_Accept_def)

lemma run_err_eval: "run acts_err (start l_good w_good 1 1) = Some s_err"
  by (simp add: acts_err_def start_def l_good_def s_err_def step_defs)

lemma run_served_eval: "run acts_served s_err = Some s_served"
  by (simp add: acts_served_def s_err_def s_served_def l_good_def step_defs)

text \<open>
  C4, as stated, fails: a task whose \<open>ln.Accept()\<close> returns an error does not always
  forward it. Here \<open>Close\<close> has closed the channel and the first sub-listener; the
  task's \<open>ln.Accept()\<close> returns the error of a closed listener, its \<open>select\<close> takes the
  branch of \<open>closeCh\<close>, and the task returns with nothing delivered.
\<close>

theorem accept_error_dropped_counterexample:
  "Listen net_strict w_empty addrs_good = Some (w_good, Some l_good, None)
   \<and> map_option (\<lambda>s. tasks s ! 0) (run (take 4 acts_drop) (start l_good w_good 1 1))
       = Some (TSelect (None, Some (OpError ''accept'' ErrClosed)))
   \<and> map_option (\<lambda>s. (tasks s ! 0, delivered s)) (run acts_drop (start l_good w_good 1 1))
       = Some (TDone, [])"
proof -
  have "map_option (\<lambda>s. tasks s ! 0) (run (take 4 acts_drop) (start l_good w_good 1 1))
       = Some (TSelect (None, Some (OpError ''accept'' ErrClosed)))"
    by (simp add: acts_drop_def start_def l_good_def w_good_def step_defs)
  moreover have "map_option (\<lambda>s. (tasks s ! 0, delivered s)) (run acts_drop (start l_good w_good 1 1))
       = Some (TDone, [])"
    by (simp add: acts_drop_def start_def l_good_def w_good_def step_defs)
  ultimately show ?thesis using Listen_good_eval by simp
qed

text \<open>
  C4, amended. Let the \<open>ln.Accept()\<close> of task \<open>i\<close> have returned the pair \<open>(c, e)\<close> with
  an error \<open>e\<close>, and follow the run from there. The task never calls \<open>ln.Accept()\<close>
  again. At any later moment one of three holds: it has delivered nothing more and is
  still at or in its \<open>select\<close>; or it has delivered nothing more, the channel is closed
  and it is in the branch of \<open>closeCh\<close> or has returned; or it has delivered exactly
  that pair, unchanged, and is past the send or has returned. Over the whole run at most
  one pair with an error comes from task \<open>i\<close>. A step of task \<open>i\<close> changes no other
  task, and every other task that is about to call \<open>ln.Accept()\<close> can still do so.
\<close>

theorem accept_error_forwarded_at_most_once:
  assumes "Listen net w addrs = Some (w0, Some l, None)"
    and "run before (start l w0 nc nk) = Some s"
    and "i < length (tasks s)" and "tasks s ! i = TSelect (c, Some e)"
    and "run after s = Some s'"
  shows "tasks s' ! i \<noteq> TAccept
       \<and> ((delivered_from i s' = delivered_from i s
            \<and> (tasks s' ! i = TSelect (c, Some e) \<or> tasks s' ! i = TParked (c, Some e)))
         \<or> (delivered_from i s' = delivered_from i s \<and> closeCh (lst s')
            \<and> (tasks s' ! i = TClosing c \<or> tasks s' ! i = TDone))
         \<or> (delivered_from i s' = delivered_from i s @ [(c, Some e)]
            \<and> (tasks s' ! i = TSent (Some e) \<or> tasks s' ! i = TDone)))
       \<and> errors_seen i s' \<le> 1
       \<and> (\<forall>a s1 j. step a s' = Some s1 \<and> task_of a = Some i \<and> j \<noteq> i \<longrightarrow>
             tasks s1 ! j = tasks s' ! j)
       \<and> (\<forall>j b e'. j < length (tasks s') \<and> tasks s' ! j = TAccept \<longrightarrow>
             (\<exists>s1. step (ActLnAccept j b e') s' = Some s1))"
proof -
  have inv1: "inv s'" by (rule inv_run[OF inv_reach[OF assms(1,2)] assms(5)])
  have p0: "after_accept i (c, Some e) (delivered_from i s) s"
    using assms(3,4) by (simp add: after_accept_def)
  have ph: "after_accept i (c, Some e) (delivered_from i s) s'"
    by (rule phase_run[OF _ p0 assms(5)]) simp
  then have a: "(delivered_from i s' = delivered_from i s
            \<and> (tasks s' ! i = TSelect (c, Some e) \<or> tasks s' ! i = TParked (c, Some e)))
         \<or> (delivered_from i s' = delivered_from i s \<and> closeCh (lst s')
            \<and> (tasks s' ! i = TClosing c \<or> tasks s' ! i = TDone))
         \<or> (delivered_from i s' = delivered_from i s @ [(c, Some e)]
            \<and> (tasks s' ! i = TSent (Some e) \<or> tasks s' ! i = TDone))"
    by (simp add: after_accept_def)
  then have b: "tasks s' ! i \<noteq> TAccept" by auto
  have "at_most_once i s'"
    by (rule once_run[OF once_run[OF once_start assms(2)] assms(5)])
  then have c: "errors_seen i s' \<le> 1" by (auto simp: at_most_once_def)
  have d: "\<forall>a s1 j. step a s' = Some s1 \<and> task_of a = Some i \<and> j \<noteq> i \<longrightarrow>
             tasks s1 ! j = tasks s' ! j"
    using others_unaffected by blast
  have np: "\<not> panicked s'" using inv1 by (simp add: inv_def)
  have f: "\<forall>j b e'. j < length (tasks s') \<and> tasks s' ! j = TAccept \<longrightarrow>
             (\<exists>s1. step (ActLnAccept j b e') s' = Some s1)"
    using can_accept[OF np] by blast
  from b a c d f show ?thesis by blast
qed

theorem accept_error_forwarded_at_most_once_witness:
  "Listen net_strict w_empty addrs_good = Some (w_good, Some l_good, None)
   \<and> run acts_err (start l_good w_good 1 1) = Some s_err
   \<and> tasks s_err ! 0 = TSelect (None, Some (Errno 24))
   \<and> run acts_served s_err = Some s_served
   \<and> delivered_from 0 s_served = delivered_from 0 s_err @ [(None, Some (Errno 24))]
   \<and> tasks s_served ! 0 = TDone
   \<and> errors_seen 0 s_served \<le> 1
   \<and> delivered s_served = [(0, None, Some (Errno 24)), (1, Some 0, None)]"
proof -
  have i: "0 < length (tasks s_err)" and t: "tasks s_err ! 0 = TSelect (None, Some (Errno 24))"
    by (simp_all add: s_err_def)
  from accept_error_forwarded_at_most_once[OF Listen_good_eval run_err_eval i t run_served_eval]
  have a: "(delivered_from 0 s_served = delivered_from 0 s_err
            \<and> (tasks s_served ! 0 = TSelect (None, Some (Errno 24)) \<or> tasks s_served ! 0 = TParked (None, Some (Errno 24))))
         \<or> (delivered_from 0 s_served = delivered_from 0 s_err \<and> closeCh (lst s_served)
            \<and> (tasks s_served ! 0 = TClosing None \<or> tasks s_served ! 0 = TDone))
         \<or> (delivered_from 0 s_served = delivered_from 0 s_err @ [(None, Some (Errno 24))]
            \<and> (tasks s_served ! 0 = TSent (Some (Errno 24)) \<or> tasks s_served ! 0 = TDone))"
    and b: "errors_seen 0 s_served \<le> 1"
    by blast+
  have c: "\<not> closeCh (lst s_served)" "tasks s_served ! 0 = TDone"
    "delivered s_served = [(0, None, Some (Errno 24)), (1, Some 0, None)]"
    by (simp_all add: s_served_def l_good_def)
  from a c have "delivered_from 0 s_served = delivered_from 0 s_err @ [(None, Some (Errno 24))]"
    by auto
  with Listen_good_eval run_err_eval t run_served_eval b c show ?thesis by blast
qed

section \<open>What Accept returns\<close>

lemma run_degraded_eval: "run acts_degraded (start l_good w_good 1 1) = Some s_degraded"
  by (simp add: acts_degraded_def start_def l_good_def s_degraded_def step_defs)

text \<open>
  A remark on \<open>errors.Is\<close>: against \<open>net.ErrClosed\<close> it holds of that value and also
  of an \<open>OpError\<close> that wraps it, though the two are different values.
\<close>

lemma errors_Is_ErrClosed_wrapped:
  "errors_Is (OpError opn ErrClosed) ErrClosed \<and> errors_Is ErrClosed ErrClosed
   \<and> OpError opn ErrClosed \<noteq> ErrClosed"
  by simp








section \<open>The steps of Close and the function Close\<close>

text \<open>
  The steps of one caller of \<open>Close\<close>, taken one after the other, do to the listener and
  the world what the function \<open>Close\<close> does, and return what it returns.
\<close>

lemma close_next_loop:
  assumes "close_loop (drop n (listeners (lst s))) e (wld s) = Some (err, w')"
    and "n \<le> length (listeners (lst s))"
    and "\<not> panicked s" and "j < length (closers s)" and "closers s ! j = KLoop n e"
  shows "\<exists>s'. run (replicate (Suc (length (listeners (lst s)) - n)) (ActCloseNext j)) s = Some s'
            \<and> lst s' = lst s \<and> wld s' = w' \<and> closers s' ! j = KRet err \<and> \<not> panicked s'"
  using assms
proof (induction "length (listeners (lst s)) - n" arbitrary: n s e)
  case 0
  then have n: "n = length (listeners (lst s))" by simp
  with "0.prems"(1) have r: "err = e" "w' = wld s" by simp_all
  have "step (ActCloseNext j) s = Some (s\<lparr>closers := (closers s)[j := KRet e]\<rparr>)"
    using "0.prems"(3,4,5) n by (simp add: close_next_def)
  then show ?case using n r "0.prems"(3,4) by simp
next
  case (Suc m)
  then have n: "n < length (listeners (lst s))" by simp
  let ?ln = "listeners (lst s) ! n"
  have dr: "drop n (listeners (lst s)) = ?ln # drop (Suc n) (listeners (lst s))"
    using n by (simp add: Cons_nth_drop_Suc)
  from Suc.prems(1) obtain cerr w1 where c: "ln_Close (wld s) ?ln = Some (cerr, w1)"
    and rest: "close_loop (drop (Suc n) (listeners (lst s)))
                 (if cerr \<noteq> None \<and> e = None then cerr else e) w1 = Some (err, w')"
    unfolding dr by (auto split: option.splits)
  let ?e1 = "if cerr \<noteq> None \<and> e = None then cerr else e"
  let ?s1 = "s\<lparr>wld := w1, closers := (closers s)[j := KLoop (Suc n) ?e1]\<rparr>"
  have st: "step (ActCloseNext j) s = Some ?s1"
    using Suc.prems(3,4,5) n c by (simp add: close_next_def)
  have m: "m = length (listeners (lst ?s1)) - Suc n" using Suc.hyps(2) by simp
  have p: "close_loop (drop (Suc n) (listeners (lst ?s1))) ?e1 (wld ?s1) = Some (err, w')"
    "Suc n \<le> length (listeners (lst ?s1))" "\<not> panicked ?s1" "j < length (closers ?s1)"
    "closers ?s1 ! j = KLoop (Suc n) ?e1"
    using rest n Suc.prems(3,4) by simp_all
  from Suc.hyps(1)[OF m p] obtain s' where
    r: "run (replicate (Suc (length (listeners (lst ?s1)) - Suc n)) (ActCloseNext j)) ?s1 = Some s'"
    and o: "lst s' = lst ?s1" "wld s' = w'" "closers s' ! j = KRet err" "\<not> panicked s'"
    by blast
  have len: "Suc (length (listeners (lst s)) - n) = Suc (Suc (length (listeners (lst s)) - Suc n))"
    using n by simp
  have "run (replicate (Suc (length (listeners (lst s)) - n)) (ActCloseNext j)) s = Some s'"
    unfolding len using st r by simp
  then show ?case using o by simp
qed

lemma Close_steps_agree:
  assumes "\<not> panicked s" and "j < length (closers s)" and "\<not> in_Close (closers s ! j)"
    and "Close (lst s) (wld s) = Some (err, l', w')"
  shows "\<exists>s'. run (if closed (lst s) then [ActCloseCas j]
                   else ActCloseCas j # ActCloseSignal j
                        # replicate (Suc (length (listeners (lst s)))) (ActCloseNext j)) s = Some s'
            \<and> lst s' = l' \<and> wld s' = w' \<and> closers s' ! j = KRet err"
proof (cases "closed (lst s)")
  case True
  then have "err = Some ErrClosed" "l' = lst s" "w' = wld s" using assms(4) by (simp_all add: Close_def)
  then show ?thesis using True assms(1,2,3) by (simp add: close_cas_def)
next
  case False
  then have nc: "\<not> closeCh (lst s)" using assms(4) by (auto simp: Close_def split: if_splits)
  from assms(4) False nc have cl: "close_loop (listeners (lst s)) None
        ((wld s)\<lparr>trace := trace (wld s) @ [EvSignal]\<rparr>) = Some (err, w')"
    and l': "l' = (lst s)\<lparr>closeCh := True, closed := True\<rparr>"
    by (auto simp: Close_def split: option.splits)
  let ?s1 = "s\<lparr>lst := (lst s)\<lparr>closed := True\<rparr>, closers := (closers s)[j := KSignal]\<rparr>"
  let ?s2 = "?s1\<lparr>lst := (lst ?s1)\<lparr>closeCh := True\<rparr>,
                 wld := (wld ?s1)\<lparr>trace := trace (wld ?s1) @ [EvSignal]\<rparr>,
                 tasks := map wake_task (tasks ?s1),
                 callers := map wake_caller (callers ?s1),
                 closers := (closers ?s1)[j := KLoop 0 None]\<rparr>"
  have s1: "step (ActCloseCas j) s = Some ?s1"
    using False assms(1,2,3) by (simp add: close_cas_def)
  have s2: "step (ActCloseSignal j) ?s1 = Some ?s2"
    using nc assms(1,2) by (simp add: close_signal_def)
  have p: "close_loop (drop 0 (listeners (lst ?s2))) None (wld ?s2) = Some (err, w')"
    "0 \<le> length (listeners (lst ?s2))" "\<not> panicked ?s2" "j < length (closers ?s2)"
    "closers ?s2 ! j = KLoop 0 None"
    using cl assms(1,2) by simp_all
  from close_next_loop[OF p] obtain s' where
    r: "run (replicate (Suc (length (listeners (lst ?s2)) - 0)) (ActCloseNext j)) ?s2 = Some s'"
    and o: "lst s' = lst ?s2" "wld s' = w'" "closers s' ! j = KRet err"
    by blast
  have "run (ActCloseCas j # ActCloseSignal j
             # replicate (Suc (length (listeners (lst s)))) (ActCloseNext j)) s = Some s'"
    using s1 s2 r by simp
  moreover have "lst s' = l'" using o(1) l' by simp
  ultimately show ?thesis using False o by simp
qed

end
